theory Spec2Isabelle
  imports Complex_Main
begin

section \<open>JavaScript numbers\<close>

text \<open>
  The merge keys and the limit of \<^verbatim>\<open>takeN\<close> are JavaScript numbers. A number is
  \<^verbatim>\<open>NaN\<close>, one of the two infinities, or a finite double. Every finite double is a
  real number and the comparisons \<^verbatim>\<open><\<close>, \<^verbatim>\<open>>\<close> and \<^verbatim>\<open>===\<close> on finite doubles are the
  comparisons of these reals (the two zeros compare equal), so the finite numbers are
  embedded in \<^typ>\<open>real\<close>: a statement for all reals holds for all doubles. Every
  comparison with \<^verbatim>\<open>NaN\<close> is false.
\<close>

datatype jsnum = NaN | NegInf | Fin real | PosInf

fun js_lt :: "jsnum \<Rightarrow> jsnum \<Rightarrow> bool" where
  "js_lt NaN b = False"
| "js_lt a NaN = False"
| "js_lt PosInf b = False"
| "js_lt a NegInf = False"
| "js_lt NegInf b = True"
| "js_lt a PosInf = True"
| "js_lt (Fin x) (Fin y) = (x < y)"

definition js_gt :: "jsnum \<Rightarrow> jsnum \<Rightarrow> bool" where
  "js_gt a b = js_lt b a"

definition js_eq :: "jsnum \<Rightarrow> jsnum \<Rightarrow> bool" where
  "js_eq a b = (a \<noteq> NaN \<and> a = b)"

definition js_le :: "jsnum \<Rightarrow> jsnum \<Rightarrow> bool" where
  "js_le a b = (js_lt a b \<or> js_eq a b)"

fun Number_isFinite :: "jsnum \<Rightarrow> bool" where
  "Number_isFinite (Fin x) = True"
| "Number_isFinite n = False"

section \<open>Dates\<close>

text \<open>
  \<^verbatim>\<open>new Date(v).getTime()\<close> is a function of the JavaScript runtime. For a number it
  is the runtime's \<^verbatim>\<open>TimeClip\<close>: \<^verbatim>\<open>NaN\<close> for a number that is not finite or lies
  outside \<open>\<plusminus>8.64e15\<close>, and the number truncated towards zero otherwise. For a string
  it is \<^verbatim>\<open>Date.parse\<close>, whose result is an integral number of milliseconds or
  \<^verbatim>\<open>NaN\<close>; parsing is left as the parameter \<open>parse\<close>. The result \<open>None\<close> stands
  for \<^verbatim>\<open>NaN\<close>.
\<close>

datatype date_value = DString string | DNumber jsnum

fun TimeClip :: "jsnum \<Rightarrow> int option" where
  "TimeClip (Fin x) =
     (if \<bar>x\<bar> \<le> 8640000000000000 then Some (if 0 \<le> x then \<lfloor>x\<rfloor> else \<lceil>x\<rceil>) else None)"
| "TimeClip n = None"

fun Date_getTime :: "(string \<Rightarrow> int option) \<Rightarrow> date_value \<Rightarrow> int option" where
  "Date_getTime parse (DString s) = parse s"
| "Date_getTime parse (DNumber n) = TimeClip n"

section \<open>Transactions and errors\<close>

text \<open>
  A transaction is a tagged union over the four source kinds. Only the fields that
  \<^verbatim>\<open>getTransactionTimestamp\<close> reads are kept. A field that may be missing
  (\<^verbatim>\<open>undefined\<close> or \<^verbatim>\<open>null\<close>) is an option; for the two stacks fields \<open>None\<close> also
  covers a present field that is not of type number, which is all that
  \<^verbatim>\<open>typeof x === "number"\<close> can tell.
\<close>

datatype tx =
    Bitcoin "jsnum option"
  | Stacks "jsnum option" "jsnum option"
  | Starknet date_value
  | Spark "date_value option"

text \<open>
  Every \<^verbatim>\<open>throw\<close> of the source is a constructor, carrying what the message
  interpolates. \<open>TypeError\<close> is what the runtime raises on a property access on
  \<^verbatim>\<open>undefined\<close>.
\<close>

datatype error =
    ConfigError
  | InvalidLimit jsnum
  | LimitExceeded jsnum
  | InvalidBlockTimestamp date_value
  | InvalidCreatedAt date_value
  | StallError
  | TypeError

section \<open>The timestamp normalizer\<close>

text \<open>
  \<^verbatim>\<open>Math.floor(timestamp / 1000)\<close> is applied to an integral number of milliseconds
  within the range of \<^verbatim>\<open>Date\<close>, where the rounded quotient of doubles has the same
  floor as the exact quotient: it is integer division, which rounds down.
  The hardened normaliser (with the \<^verbatim>\<open>isNaN\<close> checks; lines 4-43 of
  \<^verbatim>\<open>src/unnamed/part_000\<close>) comes first, the one of \<^verbatim>\<open>src/random.ts\<close> (lines 4-27)
  second. The \<^verbatim>\<open>default\<close> branch of the hardened switch is there for the compiler's
  exhaustiveness check; no transaction of the four kinds reaches it.
\<close>

fun getTransactionTimestamp :: "(string \<Rightarrow> int option) \<Rightarrow> tx \<Rightarrow> error + jsnum" where
  "getTransactionTimestamp parse (Bitcoin blockTime) =
     Inr (case blockTime of None \<Rightarrow> Fin 0 | Some t \<Rightarrow> t)"
| "getTransactionTimestamp parse (Stacks blockTime burnBlockTime) =
     (case blockTime of
        Some t \<Rightarrow>
          if js_gt t (Fin 0) then Inr t
          else (case burnBlockTime of Some b \<Rightarrow> Inr b | None \<Rightarrow> Inr PosInf)
      | None \<Rightarrow> (case burnBlockTime of Some b \<Rightarrow> Inr b | None \<Rightarrow> Inr PosInf))"
| "getTransactionTimestamp parse (Starknet blockTimestamp) =
     (case Date_getTime parse blockTimestamp of
        None \<Rightarrow> Inl (InvalidBlockTimestamp blockTimestamp)
      | Some timestamp \<Rightarrow> Inr (Fin (of_int (timestamp div 1000))))"
| "getTransactionTimestamp parse (Spark createdAt0) =
     (case (case createdAt0 of None \<Rightarrow> DNumber (Fin 0) | Some c \<Rightarrow> c) of createdAt \<Rightarrow>
        (case Date_getTime parse createdAt of
           None \<Rightarrow> Inl (InvalidCreatedAt createdAt)
         | Some timestamp \<Rightarrow> Inr (Fin (of_int (timestamp div 1000)))))"

fun getTransactionTimestamp_random :: "(string \<Rightarrow> int option) \<Rightarrow> tx \<Rightarrow> jsnum" where
  "getTransactionTimestamp_random parse (Bitcoin blockTime) =
     (case blockTime of None \<Rightarrow> Fin 0 | Some t \<Rightarrow> t)"
| "getTransactionTimestamp_random parse (Stacks blockTime burnBlockTime) =
     (case blockTime of
        Some t \<Rightarrow>
          if js_gt t (Fin 0) then t
          else (case burnBlockTime of Some b \<Rightarrow> b | None \<Rightarrow> PosInf)
      | None \<Rightarrow> (case burnBlockTime of Some b \<Rightarrow> b | None \<Rightarrow> PosInf))"
| "getTransactionTimestamp_random parse (Starknet blockTimestamp) =
     (case Date_getTime parse blockTimestamp of
        None \<Rightarrow> NaN
      | Some timestamp \<Rightarrow> Fin (of_int (timestamp div 1000)))"
| "getTransactionTimestamp_random parse (Spark createdAt0) =
     (case Date_getTime parse (case createdAt0 of None \<Rightarrow> DNumber (Fin 0) | Some c \<Rightarrow> c) of
        None \<Rightarrow> NaN
      | Some timestamp \<Rightarrow> Fin (of_int (timestamp div 1000)))"

section \<open>Streams and one round of the merge\<close>

text \<open>
  The stream interface is imported by the source and its implementations are external.
  A stream is a state of some type \<open>'s\<close>; \<open>peek\<close> and \<open>next\<close> are parameters that
  take the state and return what the call resolves to together with the state after
  the call. Nothing is assumed of them here: \<open>peek\<close> may change the state, and
  \<open>next\<close> may report anything. The streams of a merger are distinct objects, so a
  call on one stream leaves the state of every other stream as it is. The model
  covers calls that resolve; a rejected promise of a stream is not modelled.
\<close>

record iter_result =
  r_done :: bool
  r_value :: "tx option"

type_synonym 's peek_fn = "'s \<Rightarrow> tx option \<times> 's"
type_synonym 's next_fn = "'s \<Rightarrow> iter_result \<times> 's"

record peeked =
  transaction :: "tx option"
  streamIndex :: nat

text \<open>
  \<^verbatim>\<open>Promise.all(this.streams.map(...))\<close>: every stream is peeked, in index order, and
  each result is tagged with the index of its stream. The streams are independent, so
  the state after the barrier is each stream's state after its own peek.
\<close>

definition peek_all :: "'s peek_fn \<Rightarrow> 's list \<Rightarrow> peeked list \<times> 's list" where
  "peek_all peek ss =
     (map (\<lambda>(idx, s). \<lparr>transaction = fst (peek s), streamIndex = idx\<rparr>) (enumerate 0 ss),
      map (\<lambda>s. snd (peek s)) ss)"

text \<open>
  The callback of \<^verbatim>\<open>available.reduce\<close>. The non-null assertion
  \<^verbatim>\<open>best.transaction!\<close> is erased at run time: on an absent transaction the
  normaliser would read a property of \<^verbatim>\<open>undefined\<close>. The normaliser is the
  parameter \<open>ts\<close>; it is evaluated for \<open>best\<close> first, as in the source (\<open>cur\<close> is the source's
  \<^verbatim>\<open>curr\<close>).
\<close>

definition pick :: "(tx \<Rightarrow> error + jsnum) \<Rightarrow> peeked \<Rightarrow> peeked \<Rightarrow> error + peeked" where
  "pick ts best cur =
     (case transaction best of
        None \<Rightarrow> Inl TypeError
      | Some bt \<Rightarrow>
          (case ts bt of
             Inl e \<Rightarrow> Inl e
           | Inr bestTimestamp \<Rightarrow>
               (case transaction cur of
                  None \<Rightarrow> Inl TypeError
                | Some ct \<Rightarrow>
                    (case ts ct of
                       Inl e \<Rightarrow> Inl e
                     | Inr currTimestamp \<Rightarrow>
                         if js_gt currTimestamp bestTimestamp then Inr cur
                         else if js_eq currTimestamp bestTimestamp then
                           Inr (if streamIndex cur < streamIndex best then cur else best)
                         else Inr best))))"

text \<open>
  \<^verbatim>\<open>Array.prototype.reduce\<close> without an initial value: the first element is the
  accumulator and the callback runs on the others from left to right (not at all on
  a one-element array). An exception of the callback ends the reduction.
\<close>

fun reduce :: "('a \<Rightarrow> 'a \<Rightarrow> error + 'a) \<Rightarrow> 'a \<Rightarrow> 'a list \<Rightarrow> error + 'a" where
  "reduce f acc [] = Inr acc"
| "reduce f acc (x # xs) = (case f acc x of Inl e \<Rightarrow> Inl e | Inr acc' \<Rightarrow> reduce f acc' xs)"

text \<open>
  What one iteration of the \<^verbatim>\<open>while\<close> loop does before it touches the loop's
  variables; the two files agree on it (lines 69-93 of the hardened file, lines 36-59
  of \<^verbatim>\<open>random.ts\<close>) up to the normaliser they call: it breaks (\<open>Exhausted\<close>), throws (\<open>Failed\<close>), or calls \<^verbatim>\<open>next\<close> on the
  winner \<open>w\<close> and either has an item to push (\<open>Appended w v\<close>) or has none
  (\<open>NoValue w\<close>). The streams' states after the iteration are returned with it.
  An object is truthy, so \<^verbatim>\<open>!result.done && result.value\<close> holds when the stream
  is not done and a transaction is present.
\<close>

datatype round_outcome = Exhausted | Failed error | Appended nat tx | NoValue nat

definition merge_round ::
  "(tx \<Rightarrow> error + jsnum) \<Rightarrow> 's peek_fn \<Rightarrow> 's next_fn \<Rightarrow> 's list \<Rightarrow> 's list \<times> round_outcome" where
  "merge_round ts peek next ss =
     (case peek_all peek ss of
        (peeks, ss1) \<Rightarrow>
          (case filter (\<lambda>p. transaction p \<noteq> None) peeks of
             [] \<Rightarrow> (ss1, Exhausted)
           | p # ps \<Rightarrow>
               (case reduce (pick ts) p ps of
                  Inl e \<Rightarrow> (ss1, Failed e)
                | Inr winner \<Rightarrow>
                    if streamIndex winner < length ss1 then
                      (case next (ss1 ! streamIndex winner) of
                         (result, s') \<Rightarrow>
                           (ss1[streamIndex winner := s'],
                            case r_value result of
                              None \<Rightarrow> NoValue (streamIndex winner)
                            | Some v \<Rightarrow>
                                if \<not> r_done result then Appended (streamIndex winner) v
                                else NoValue (streamIndex winner)))
                    else (ss1, Failed TypeError))))"

section \<open>The merger\<close>

definition MAX_ALLOWED_LIMIT :: jsnum where
  "MAX_ALLOWED_LIMIT = Fin 10000"

definition MAX_EMPTY_PEEKS :: nat where
  "MAX_EMPTY_PEEKS = 3"

text \<open>
  The constructor of the hardened merger (lines 49-53); \<open>None\<close> is an absent list.
  The constructor of \<^verbatim>\<open>random.ts\<close> (line 30) has an empty body and stores what it is
  given.
\<close>

definition StreamMerger :: "'s list option \<Rightarrow> error + 's list" where
  "StreamMerger streams =
     (case streams of
        None \<Rightarrow> Inl ConfigError
      | Some ss \<Rightarrow> if length ss = 0 then Inl ConfigError else Inr ss)"

definition StreamMerger_random :: "'s list option \<Rightarrow> error + 's list option" where
  "StreamMerger_random streams = Inr streams"

text \<open>
  The \<^verbatim>\<open>while\<close> loops and \<^verbatim>\<open>takeN\<close> (lines 55-107 of the hardened file, lines
  32-66 of \<^verbatim>\<open>random.ts\<close>). A call ends with an exception, \<open>Inl\<close> of the error and the
  streams' states at the throw (no result is returned then), or returns, \<open>Inr\<close> of the
  results and the streams' states; a call that runs forever is \<open>None\<close>.
  The list \<open>origins\<close> is not in the source: it records, for every pushed item, the
  index of the stream it came from, is never read by the loop, and serves to state
  which stream produced which item of the result.
\<close>

type_synonym 's outcome = "(error \<times> 's list) + (tx list \<times> nat list \<times> 's list)"

partial_function (option) takeN_loop ::
  "(tx \<Rightarrow> error + jsnum) \<Rightarrow> 's peek_fn \<Rightarrow> 's next_fn \<Rightarrow> jsnum \<Rightarrow>
   tx list \<Rightarrow> nat list \<Rightarrow> nat \<Rightarrow> 's list \<Rightarrow> 's outcome option" where
  [code]: "takeN_loop ts peek next limit results origins emptyPeeksCount ss =
     (if js_lt (Fin (real (length results))) limit then
        (case merge_round ts peek next ss of
           (ss', Exhausted) \<Rightarrow> Some (Inr (results, origins, ss'))
         | (ss', Failed e) \<Rightarrow> Some (Inl (e, ss'))
         | (ss', Appended w v) \<Rightarrow>
             takeN_loop ts peek next limit (results @ [v]) (origins @ [w]) 0 ss'
         | (ss', NoValue w) \<Rightarrow>
             if emptyPeeksCount + 1 \<ge> MAX_EMPTY_PEEKS then Some (Inl (StallError, ss'))
             else takeN_loop ts peek next limit results origins (emptyPeeksCount + 1) ss')
      else Some (Inr (results, origins, ss)))"

partial_function (option) takeN_loop_random ::
  "(tx \<Rightarrow> error + jsnum) \<Rightarrow> 's peek_fn \<Rightarrow> 's next_fn \<Rightarrow> jsnum \<Rightarrow>
   tx list \<Rightarrow> nat list \<Rightarrow> 's list \<Rightarrow> 's outcome option" where
  [code]: "takeN_loop_random ts peek next limit results origins ss =
     (if js_lt (Fin (real (length results))) limit then
        (case merge_round ts peek next ss of
           (ss', Exhausted) \<Rightarrow> Some (Inr (results, origins, ss'))
         | (ss', Failed e) \<Rightarrow> Some (Inl (e, ss'))
         | (ss', Appended w v) \<Rightarrow>
             takeN_loop_random ts peek next limit (results @ [v]) (origins @ [w]) ss'
         | (ss', NoValue w) \<Rightarrow>
             takeN_loop_random ts peek next limit results origins ss')
      else Some (Inr (results, origins, ss)))"

definition takeN ::
  "(string \<Rightarrow> int option) \<Rightarrow> 's peek_fn \<Rightarrow> 's next_fn \<Rightarrow> 's list \<Rightarrow> jsnum \<Rightarrow> 's outcome option" where
  "takeN parse peek next streams limit =
     (if js_le limit (Fin 0) \<or> \<not> Number_isFinite limit then Some (Inl (InvalidLimit limit, streams))
      else if js_gt limit MAX_ALLOWED_LIMIT then Some (Inl (LimitExceeded limit, streams))
      else takeN_loop (getTransactionTimestamp parse) peek next limit [] [] 0 streams)"

definition takeN_random ::
  "(string \<Rightarrow> int option) \<Rightarrow> 's peek_fn \<Rightarrow> 's next_fn \<Rightarrow> 's list \<Rightarrow> jsnum \<Rightarrow> 's outcome option" where
  "takeN_random parse peek next streams limit =
     takeN_loop_random (\<lambda>t. Inr (getTransactionTimestamp_random parse t)) peek next limit [] [] streams"

section \<open>Merge keys, the stream contract and what the claims speak of\<close>

text \<open>
  \<^verbatim>\<open>a >= b\<close> on numbers. The merge key of a transaction under a normaliser \<open>ts\<close>
  is \<open>key_of ts\<close>; a transaction is \<open>keyed\<close> when the normaliser returns a number
  that is not \<^verbatim>\<open>NaN\<close>, that is, a key of the total order
  \<open>NegInf < Fin x < PosInf\<close>. A list is \<open>descending\<close> when all its items are keyed
  and every item's key is at least the key of every later item.
\<close>

definition js_ge :: "jsnum \<Rightarrow> jsnum \<Rightarrow> bool" where
  "js_ge a b = (js_gt a b \<or> js_eq a b)"

definition keyed :: "(tx \<Rightarrow> error + jsnum) \<Rightarrow> tx \<Rightarrow> bool" where
  "keyed ts t = (case ts t of Inl e \<Rightarrow> False | Inr k \<Rightarrow> k \<noteq> NaN)"

definition key_of :: "(tx \<Rightarrow> error + jsnum) \<Rightarrow> tx \<Rightarrow> jsnum" where
  "key_of ts t = (case ts t of Inl e \<Rightarrow> NaN | Inr k \<Rightarrow> k)"

definition descending :: "(tx \<Rightarrow> error + jsnum) \<Rightarrow> tx list \<Rightarrow> bool" where
  "descending ts xs =
     (list_all (keyed ts) xs \<and> sorted_wrt (\<lambda>a b. js_ge (key_of ts a) (key_of ts b)) xs)"

text \<open>
  Item \<open>a\<close> of stream \<open>i\<close> goes before item \<open>b\<close> of stream \<open>j\<close>: its key is
  greater, or the keys are equal and \<open>i \<le> j\<close>.
\<close>

definition precedes :: "(tx \<Rightarrow> error + jsnum) \<Rightarrow> tx \<Rightarrow> nat \<Rightarrow> tx \<Rightarrow> nat \<Rightarrow> bool" where
  "precedes ts a i b j =
     (js_gt (key_of ts a) (key_of ts b) \<or> (js_eq (key_of ts a) (key_of ts b) \<and> i \<le> j))"

text \<open>
  Modelled from the spec: the contract of the stream interface, whose declaration and
  implementations are not among the source files. The items a stream has yet to emit
  are \<open>items s\<close>. \<^verbatim>\<open>peek\<close> reports the first of them, or nothing when there is none,
  and does not advance. \<^verbatim>\<open>next\<close> either hands out the first item and advances past
  it, or yields nothing (a transient empty result, or completion) and then loses no
  item.
\<close>

definition stream_contract :: "('s \<Rightarrow> tx list) \<Rightarrow> 's peek_fn \<Rightarrow> 's next_fn \<Rightarrow> bool" where
  "stream_contract items peek next =
     (\<forall>s. fst (peek s) = (case items s of [] \<Rightarrow> None | x # xs \<Rightarrow> Some x)
        \<and> items (snd (peek s)) = items s
        \<and> (case r_value (fst (next s)) of
             None \<Rightarrow> items (snd (next s)) = items s
           | Some v \<Rightarrow>
               if \<not> r_done (fst (next s)) then items s = v # items (snd (next s))
               else items (snd (next s)) = items s))"

definition total_items :: "('s \<Rightarrow> tx list) \<Rightarrow> 's list \<Rightarrow> nat" where
  "total_items items ss = sum_list (map (\<lambda>s. length (items s)) ss)"

text \<open>
  The order of a result \<open>res\<close> whose items came from the streams \<open>orig\<close>: keys
  never increase, and of two items with equal keys the earlier one comes from the
  stream with the smaller (or the same) index.
\<close>

definition ordered_output :: "(tx \<Rightarrow> error + jsnum) \<Rightarrow> tx list \<Rightarrow> nat list \<Rightarrow> bool" where
  "ordered_output ts res orig =
     (length orig = length res
      \<and> sorted_wrt (\<lambda>a b. js_ge (key_of ts a) (key_of ts b)) res
      \<and> (\<forall>i j. i < j \<and> j < length res \<and> js_eq (key_of ts (res ! i)) (key_of ts (res ! j))
            \<longrightarrow> orig ! i \<le> orig ! j))"

text \<open>
  What \<open>orig\<close> means: the items that stream \<open>j\<close> had at the start are the items of
  the result that are attributed to \<open>j\<close>, in the order of the result, followed by
  the items the stream still has.
\<close>

definition produced_from ::
  "('s \<Rightarrow> tx list) \<Rightarrow> 's list \<Rightarrow> tx list \<Rightarrow> nat list \<Rightarrow> 's list \<Rightarrow> bool" where
  "produced_from items ss0 res orig ss =
     (length ss = length ss0 \<and> length orig = length res \<and> (\<forall>k\<in>set orig. k < length ss0)
      \<and> (\<forall>j<length ss0.
            items (ss0 ! j) = map fst (filter (\<lambda>p. snd p = j) (zip res orig)) @ items (ss ! j)))"

text \<open>The candidates of a round, and the invariants of the loops used in the proofs.\<close>

definition available :: "'s peek_fn \<Rightarrow> 's list \<Rightarrow> peeked list" where
  "available peek ss = filter (\<lambda>p. transaction p \<noteq> None) (fst (peek_all peek ss))"

definition candidate :: "(tx \<Rightarrow> error + jsnum) \<Rightarrow> peeked \<Rightarrow> bool" where
  "candidate ts p = (case transaction p of None \<Rightarrow> False | Some t \<Rightarrow> keyed ts t)"

definition the_tx :: "peeked \<Rightarrow> tx" where
  "the_tx p = (case transaction p of Some t \<Rightarrow> t | None \<Rightarrow> Bitcoin None)"

definition merge_inv ::
  "(tx \<Rightarrow> error + jsnum) \<Rightarrow> ('s \<Rightarrow> tx list) \<Rightarrow> tx list \<Rightarrow> nat list \<Rightarrow> 's list \<Rightarrow> bool" where
  "merge_inv ts items rs os ss =
     (length os = length rs
      \<and> (\<forall>j<length ss. descending ts (items (ss ! j)))
      \<and> sorted_wrt (\<lambda>(a, i) (b, j). precedes ts a i b j) (zip rs os)
      \<and> (\<forall>(a, i)\<in>set (zip rs os). \<forall>j<length ss. \<forall>b\<in>set (items (ss ! j)). precedes ts a i b j))"

definition count_inv :: "('s \<Rightarrow> tx list) \<Rightarrow> nat \<Rightarrow> nat \<Rightarrow> tx list \<Rightarrow> nat list \<Rightarrow> 's list \<Rightarrow> bool" where
  "count_inv items tot n rs os ss = (length rs + total_items items ss = tot \<and> length rs \<le> n)"

section \<open>A stream for concrete runs\<close>

text \<open>
  Modelled from the spec: a stream with one buffered lookahead, as the design notes
  describe it, for the concrete runs below. \<open>buffer\<close> holds the items yet to be
  emitted; the next \<open>hiccups\<close> calls of \<^verbatim>\<open>next\<close> report "not done" with no item,
  the transient empty result the contract allows; the two counters count the calls.
\<close>

record fx_stream =
  buffer :: "tx list"
  hiccups :: nat
  peek_calls :: nat
  next_calls :: nat

definition fx_peek :: "fx_stream peek_fn" where
  "fx_peek s = (case buffer s of [] \<Rightarrow> None | x # xs \<Rightarrow> Some x, s\<lparr>peek_calls := peek_calls s + 1\<rparr>)"

definition fx_next :: "fx_stream next_fn" where
  "fx_next s =
     (if 0 < hiccups s then
        (\<lparr>r_done = False, r_value = None\<rparr>,
         s\<lparr>hiccups := hiccups s - 1, next_calls := next_calls s + 1\<rparr>)
      else
        (case buffer s of
           [] \<Rightarrow> (\<lparr>r_done = True, r_value = None\<rparr>, s\<lparr>next_calls := next_calls s + 1\<rparr>)
         | x # xs \<Rightarrow>
             (\<lparr>r_done = False, r_value = Some x\<rparr>,
              s\<lparr>buffer := xs, next_calls := next_calls s + 1\<rparr>)))"

text \<open>
  Modelled from the spec: a \<^verbatim>\<open>next\<close> that reports "not done" with no item on every
  call, the persistent empty production that the stall safeguard is there for.
\<close>

definition stuck_next :: "fx_stream next_fn" where
  "stuck_next s = (\<lparr>r_done = False, r_value = None\<rparr>, s\<lparr>next_calls := next_calls s + 1\<rparr>)"

definition fx :: "tx list \<Rightarrow> nat \<Rightarrow> nat \<Rightarrow> nat \<Rightarrow> fx_stream" where
  "fx xs h p n = \<lparr>buffer = xs, hiccups = h, peek_calls = p, next_calls = n\<rparr>"

definition btc :: "real \<Rightarrow> tx" where
  "btc t = Bitcoin (Some (Fin t))"

definition no_parse :: "string \<Rightarrow> int option" where
  "no_parse s = None"

text \<open>
  Modelled from the spec: a sample of \<^verbatim>\<open>Date.parse\<close> on two ISO-8601 strings, one and a
  half seconds after and before the epoch; every other string is malformed.
\<close>

definition sample_parse :: "string \<Rightarrow> int option" where
  "sample_parse s =
     (if s = ''1970-01-01T00:00:01.500Z'' then Some 1500
      else if s = ''1969-12-31T23:59:58.500Z'' then Some (- 1500)
      else None)"

section \<open>Lemmas\<close>

lemma js_lt_irrefl: "\<not> js_lt a a"
  by (cases a) auto

lemma js_lt_trans: "js_lt a b \<Longrightarrow> js_lt b c \<Longrightarrow> js_lt a c"
  by (cases a; cases b; cases c) auto

lemma js_lt_total: "a \<noteq> NaN \<Longrightarrow> b \<noteq> NaN \<Longrightarrow> js_lt a b \<or> a = b \<or> js_lt b a"
  by (cases a; cases b) auto

lemma js_lt_not_NaN: "js_lt a b \<Longrightarrow> a \<noteq> NaN \<and> b \<noteq> NaN"
  by (cases a; cases b) auto

lemma keyed_Inr: "keyed ts t \<Longrightarrow> ts t = Inr (key_of ts t) \<and> key_of ts t \<noteq> NaN"
  by (auto simp: keyed_def key_of_def split: sum.splits)

lemma precedes_refl: "keyed ts a \<Longrightarrow> precedes ts a i a i"
  by (simp add: precedes_def js_eq_def keyed_Inr)

lemma precedes_trans:
  "precedes ts a i b j \<Longrightarrow> precedes ts b j c k \<Longrightarrow> precedes ts a i c k"
  unfolding precedes_def js_gt_def js_eq_def
  by (metis js_lt_trans le_trans)

lemma precedes_ge:
  "precedes ts a i b j \<Longrightarrow> js_ge (key_of ts b) (key_of ts c) \<Longrightarrow> precedes ts a i c j"
  unfolding precedes_def js_ge_def js_gt_def js_eq_def
  by (metis js_lt_trans)

lemma pick_cases:
  assumes "pick ts best cur = Inr w"
    and "transaction best = Some a" "keyed ts a"
    and "transaction cur = Some b" "keyed ts b"
  shows "(w = best \<or> w = cur)
       \<and> (\<exists>c. transaction w = Some c \<and> keyed ts c
            \<and> precedes ts c (streamIndex w) a (streamIndex best)
            \<and> precedes ts c (streamIndex w) b (streamIndex cur))"
proof -
  have ka: "ts a = Inr (key_of ts a)" "key_of ts a \<noteq> NaN"
    and kb: "ts b = Inr (key_of ts b)" "key_of ts b \<noteq> NaN"
    using assms keyed_Inr by auto
  consider "js_lt (key_of ts a) (key_of ts b)" | "key_of ts a = key_of ts b"
    | "js_lt (key_of ts b) (key_of ts a)"
    using js_lt_total ka(2) kb(2) by blast
  then show ?thesis
  proof cases
    case 1
    then have "w = cur" using assms ka kb by (simp add: pick_def js_gt_def)
    then show ?thesis using 1 assms kb by (auto simp: precedes_def js_gt_def js_eq_def)
  next
    case 2
    then have w: "w = (if streamIndex cur < streamIndex best then cur else best)"
      using assms ka kb by (simp add: pick_def js_gt_def js_eq_def js_lt_irrefl)
    show ?thesis using 2 assms ka kb unfolding w
      by (auto simp: precedes_def js_gt_def js_eq_def)
  next
    case 3
    have "\<not> js_lt (key_of ts a) (key_of ts b)"
      using 3 js_lt_trans js_lt_irrefl by blast
    moreover have "key_of ts b \<noteq> key_of ts a"
      using 3 js_lt_irrefl by auto
    ultimately have "w = best" using assms ka kb by (auto simp add: pick_def js_gt_def js_eq_def)
    then show ?thesis using 3 assms ka by (auto simp: precedes_def js_gt_def js_eq_def)
  qed
qed

lemma reduce_pick:
  assumes "reduce (pick ts) p ps = Inr w" and "\<forall>c\<in>set (p # ps). candidate ts c"
  shows "w \<in> set (p # ps) \<and>
         (\<forall>c\<in>set (p # ps). precedes ts (the_tx w) (streamIndex w) (the_tx c) (streamIndex c))"
  using assms
proof (induction ps arbitrary: p)
  case Nil
  then show ?case
    by (auto simp: candidate_def the_tx_def precedes_refl split: option.splits)
next
  case (Cons x xs)
  from Cons.prems(2) obtain a b where a: "transaction p = Some a" "keyed ts a"
    and b: "transaction x = Some b" "keyed ts b"
    by (auto simp: candidate_def split: option.splits)
  from Cons.prems(1) obtain q where q: "pick ts p x = Inr q" and r: "reduce (pick ts) q xs = Inr w"
    by (auto split: sum.splits)
  from pick_cases[OF q a b] obtain c where qc: "q = p \<or> q = x" "transaction q = Some c" "keyed ts c"
    "precedes ts c (streamIndex q) a (streamIndex p)" "precedes ts c (streamIndex q) b (streamIndex x)"
    by blast
  have cand: "\<forall>c\<in>set (q # xs). candidate ts c"
    using Cons.prems(2) qc(1) by auto
  from Cons.IH[OF r cand] have w: "w \<in> set (q # xs)"
    and wall: "\<forall>c\<in>set (q # xs). precedes ts (the_tx w) (streamIndex w) (the_tx c) (streamIndex c)"
    by auto
  have wq: "precedes ts (the_tx w) (streamIndex w) c (streamIndex q)"
    using wall qc(2) by (simp add: the_tx_def)
  have "precedes ts (the_tx w) (streamIndex w) (the_tx p) (streamIndex p)"
    using precedes_trans[OF wq qc(4)] a by (simp add: the_tx_def)
  moreover have "precedes ts (the_tx w) (streamIndex w) (the_tx x) (streamIndex x)"
    using precedes_trans[OF wq qc(5)] b by (simp add: the_tx_def)
  ultimately show ?case using w wall qc(1) by auto
qed

lemma contract_peek:
  assumes "stream_contract items peek next"
  shows "fst (peek s) = (case items s of [] \<Rightarrow> None | x # xs \<Rightarrow> Some x)"
    and "items (snd (peek s)) = items s"
  using assms unfolding stream_contract_def by blast+

lemma contract_next_Some:
  assumes "stream_contract items peek next"
    and "r_value (fst (next s)) = Some v" and "\<not> r_done (fst (next s))"
  shows "items s = v # items (snd (next s))"
proof -
  have "case r_value (fst (next s)) of
             None \<Rightarrow> items (snd (next s)) = items s
           | Some v \<Rightarrow>
               if \<not> r_done (fst (next s)) then items s = v # items (snd (next s))
               else items (snd (next s)) = items s"
    using assms(1) unfolding stream_contract_def by blast
  then show ?thesis using assms(2,3) by simp
qed

lemma contract_next_None:
  assumes "stream_contract items peek next"
    and "r_value (fst (next s)) = None \<or> r_done (fst (next s))"
  shows "items (snd (next s)) = items s"
proof -
  have "case r_value (fst (next s)) of
             None \<Rightarrow> items (snd (next s)) = items s
           | Some v \<Rightarrow>
               if \<not> r_done (fst (next s)) then items s = v # items (snd (next s))
               else items (snd (next s)) = items s"
    using assms(1) unfolding stream_contract_def by blast
  then show ?thesis using assms(2) by (auto split: option.splits)
qed

lemma peeks_eq:
  "fst (peek_all peek ss) =
     map (\<lambda>i. \<lparr>transaction = fst (peek (ss ! i)), streamIndex = i\<rparr>) [0..<length ss]"
  unfolding peek_all_def
  by (rule nth_equalityI) (simp_all add: nth_enumerate_eq)

lemma states_eq: "snd (peek_all peek ss) = map (\<lambda>s. snd (peek s)) ss"
  by (simp add: peek_all_def)

lemma pick_mem: "pick ts best cur = Inr w \<Longrightarrow> w = best \<or> w = cur"
  by (auto simp: pick_def split: option.splits sum.splits if_splits)

lemma reduce_pick_mem: "reduce (pick ts) p ps = Inr w \<Longrightarrow> w \<in> set (p # ps)"
proof (induction ps arbitrary: p)
  case Nil
  then show ?case by simp
next
  case (Cons x xs)
  then obtain q where q: "pick ts p x = Inr q" and r: "reduce (pick ts) q xs = Inr w"
    by (auto split: sum.splits)
  from Cons.IH[OF r] pick_mem[OF q] show ?case by auto
qed

lemma available_mem:
  "p \<in> set (available peek ss) \<longleftrightarrow>
     (\<exists>i t. i < length ss \<and> fst (peek (ss ! i)) = Some t \<and> p = \<lparr>transaction = Some t, streamIndex = i\<rparr>)"
  unfolding available_def peeks_eq by (auto simp: image_iff)

lemma merge_round_unfold:
  "merge_round ts peek next ss =
     (case available peek ss of
        [] \<Rightarrow> (map (\<lambda>s. snd (peek s)) ss, Exhausted)
      | p # ps \<Rightarrow>
          (case reduce (pick ts) p ps of
             Inl e \<Rightarrow> (map (\<lambda>s. snd (peek s)) ss, Failed e)
           | Inr winner \<Rightarrow>
               ((map (\<lambda>s. snd (peek s)) ss)
                  [streamIndex winner := snd (next (snd (peek (ss ! streamIndex winner))))],
                case r_value (fst (next (snd (peek (ss ! streamIndex winner))))) of
                  None \<Rightarrow> NoValue (streamIndex winner)
                | Some v \<Rightarrow>
                    if \<not> r_done (fst (next (snd (peek (ss ! streamIndex winner)))))
                    then Appended (streamIndex winner) v
                    else NoValue (streamIndex winner))))"
proof (cases "available peek ss")
  case Nil
  then show ?thesis
    by (simp add: merge_round_def available_def peek_all_def split: prod.splits)
next
  case (Cons p ps)
  show ?thesis
  proof (cases "reduce (pick ts) p ps")
    case (Inl e)
    then show ?thesis using Cons
      by (simp add: merge_round_def available_def peek_all_def split: prod.splits)
  next
    case (Inr w)
    have "w \<in> set (available peek ss)" using reduce_pick_mem[OF Inr] Cons by simp
    then have "streamIndex w < length ss" by (auto simp: available_mem)
    then show ?thesis using Cons Inr
      by (auto simp add: merge_round_def available_def peek_all_def split: prod.splits option.splits)
  qed
qed

lemma merge_round_length: "merge_round ts peek next ss = (ss', out) \<Longrightarrow> length ss' = length ss"
  by (auto simp: merge_round_unfold split: list.splits sum.splits)

lemma merge_round_winner:
  assumes r: "merge_round ts peek next ss = (ss', out)"
    and out: "out = Appended w v \<or> out = NoValue w"
    and keyed: "\<forall>i<length ss. \<forall>t. fst (peek (ss ! i)) = Some t \<longrightarrow> keyed ts t"
  shows "w < length ss \<and>
         (\<exists>tw. fst (peek (ss ! w)) = Some tw \<and>
            (\<forall>j<length ss. \<forall>t. fst (peek (ss ! j)) = Some t \<longrightarrow> precedes ts tw w t j))"
proof -
  from r out obtain p ps winner where av: "available peek ss = p # ps"
    and red: "reduce (pick ts) p ps = Inr winner" and w: "w = streamIndex winner"
    by (auto simp: merge_round_unfold split: list.splits sum.splits option.splits if_splits)
  have cand: "\<forall>c\<in>set (p # ps). candidate ts c"
    using keyed unfolding av[symmetric] by (auto simp: available_mem candidate_def)
  from reduce_pick[OF red cand] have mem: "winner \<in> set (available peek ss)"
    and best: "\<forall>c\<in>set (available peek ss).
        precedes ts (the_tx winner) (streamIndex winner) (the_tx c) (streamIndex c)"
    unfolding av by auto
  from mem obtain tw where tw: "w < length ss" "fst (peek (ss ! w)) = Some tw"
    "winner = \<lparr>transaction = Some tw, streamIndex = w\<rparr>"
    unfolding w by (auto simp: available_mem)
  have "precedes ts tw w t j" if "j < length ss" "fst (peek (ss ! j)) = Some t" for j t
  proof -
    have "\<lparr>transaction = Some t, streamIndex = j\<rparr> \<in> set (available peek ss)"
      using that by (auto simp: available_mem)
    from bspec[OF best this] show ?thesis using tw(3) by (simp add: the_tx_def)
  qed
  then show ?thesis using tw by blast
qed

lemma merge_round_states:
  assumes r: "merge_round ts peek next ss = (ss', out)"
  shows "(out = Appended w v \<or> out = NoValue w \<longrightarrow>
            w < length ss \<and>
            ss' = (map (\<lambda>s. snd (peek s)) ss)[w := snd (next (snd (peek (ss ! w))))] \<and>
            (out = Appended w v \<longrightarrow>
               r_value (fst (next (snd (peek (ss ! w))))) = Some v \<and>
               \<not> r_done (fst (next (snd (peek (ss ! w)))))) \<and>
            (out = NoValue w \<longrightarrow>
               r_value (fst (next (snd (peek (ss ! w))))) = None \<or>
               r_done (fst (next (snd (peek (ss ! w))))))) \<and>
         (out = Exhausted \<longrightarrow> ss' = map (\<lambda>s. snd (peek s)) ss \<and> (\<forall>s\<in>set ss. fst (peek s) = None)) \<and>
         (\<forall>e. out = Failed e \<longrightarrow> ss' = map (\<lambda>s. snd (peek s)) ss)"
proof (cases "available peek ss")
  case Nil
  have "fst (peek (ss ! i)) = None" if "i < length ss" for i
  proof (rule ccontr)
    assume "fst (peek (ss ! i)) \<noteq> None"
    then obtain t where "fst (peek (ss ! i)) = Some t" by auto
    with that have "\<lparr>transaction = Some t, streamIndex = i\<rparr> \<in> set (available peek ss)"
      unfolding available_mem by blast
    with Nil show False by simp
  qed
  then have "\<forall>s\<in>set ss. fst (peek s) = None" by (auto simp: in_set_conv_nth)
  then show ?thesis using r Nil by (auto simp: merge_round_unfold)
next
  case (Cons p ps)
  show ?thesis
  proof (cases "reduce (pick ts) p ps")
    case (Inl e)
    then show ?thesis using r Cons by (auto simp: merge_round_unfold)
  next
    case (Inr winner)
    have "winner \<in> set (available peek ss)" using reduce_pick_mem[OF Inr] Cons by simp
    then have "streamIndex winner < length ss" by (auto simp: available_mem)
    then show ?thesis using r Cons Inr
      by (auto simp: merge_round_unfold split: option.splits if_splits)
  qed
qed

lemma takeN_loop_random_invariant:
  assumes run: "takeN_loop_random ts peek next limit results origins ss = Some (Inr (res, orig, ss'))"
    and I0: "I results origins ss"
    and app: "\<And>rs os s s' w v. I rs os s \<Longrightarrow> js_lt (Fin (real (length rs))) limit \<Longrightarrow>
                merge_round ts peek next s = (s', Appended w v) \<Longrightarrow> I (rs @ [v]) (os @ [w]) s'"
    and nov: "\<And>rs os s s' w. I rs os s \<Longrightarrow> merge_round ts peek next s = (s', NoValue w) \<Longrightarrow> I rs os s'"
    and exh: "\<And>rs os s s'. I rs os s \<Longrightarrow> merge_round ts peek next s = (s', Exhausted) \<Longrightarrow> I rs os s'"
  shows "I res orig ss'"
proof -
  have "ts0 = ts \<longrightarrow> peek0 = peek \<longrightarrow> next0 = next \<longrightarrow> limit0 = limit \<longrightarrow> I results origins ss \<longrightarrow>
          (\<forall>res orig ss'. y = Inr (res, orig, ss') \<longrightarrow> I res orig ss')"
    if "takeN_loop_random ts0 peek0 next0 limit0 results origins ss = Some y"
    for ts0 peek0 next0 limit0 results origins ss y
  proof (rule takeN_loop_random.raw_induct[where P = "\<lambda>ts0 peek0 next0 limit0 results origins ss y.
      ts0 = ts \<longrightarrow> peek0 = peek \<longrightarrow> next0 = next \<longrightarrow> limit0 = limit \<longrightarrow> I results origins ss \<longrightarrow>
          (\<forall>res orig ss'. y = Inr (res, orig, ss') \<longrightarrow> I res orig ss')", OF _ that], goal_cases)
    case (1 loop ts0 peek0 next0 limit0 results origins ss y)
    show ?case
    proof (intro impI allI)
      fix res orig ss'
      assume eqs: "ts0 = ts" "peek0 = peek" "next0 = next" "limit0 = limit"
        and I: "I results origins ss" and y: "y = Inr (res, orig, ss')"
      show "I res orig ss'"
      proof (cases "js_lt (Fin (real (length results))) limit")
        case False
        then show ?thesis using 1(2) eqs I y by simp
      next
        case True
        obtain s1 out where r: "merge_round ts peek next ss = (s1, out)" by (cases "merge_round ts peek next ss")
        show ?thesis
        proof (cases out)
          case Exhausted
          then show ?thesis using 1(2) eqs I y True r exh[OF I] by simp
        next
          case (Failed e)
          then show ?thesis using 1(2) eqs y True r by simp
        next
          case (Appended w v)
          then have "loop ts peek next limit (results @ [v]) (origins @ [w]) s1 = Some y"
            using 1(2) eqs True r by simp
          from 1(1)[OF this] app[OF I True] r Appended y show ?thesis by simp
        next
          case (NoValue w)
          then have "loop ts peek next limit results origins s1 = Some y"
            using 1(2) eqs True r by simp
          from 1(1)[OF this] nov[OF I] r NoValue y show ?thesis by simp
        qed
      qed
    qed
  qed
  from this[OF run] I0 show ?thesis by simp
qed

lemma takeN_loop_invariant:
  assumes run: "takeN_loop ts peek next limit results origins c ss = Some (Inr (res, orig, ss'))"
    and I0: "I results origins ss"
    and app: "\<And>rs os s s' w v. I rs os s \<Longrightarrow> js_lt (Fin (real (length rs))) limit \<Longrightarrow>
                merge_round ts peek next s = (s', Appended w v) \<Longrightarrow> I (rs @ [v]) (os @ [w]) s'"
    and nov: "\<And>rs os s s' w. I rs os s \<Longrightarrow> merge_round ts peek next s = (s', NoValue w) \<Longrightarrow> I rs os s'"
    and exh: "\<And>rs os s s'. I rs os s \<Longrightarrow> merge_round ts peek next s = (s', Exhausted) \<Longrightarrow> I rs os s'"
  shows "I res orig ss'"
proof -
  have "ts0 = ts \<longrightarrow> peek0 = peek \<longrightarrow> next0 = next \<longrightarrow> limit0 = limit \<longrightarrow> I results origins ss \<longrightarrow>
          (\<forall>res orig ss'. y = Inr (res, orig, ss') \<longrightarrow> I res orig ss')"
    if "takeN_loop ts0 peek0 next0 limit0 results origins c ss = Some y"
    for ts0 peek0 next0 limit0 results origins c ss y
  proof (rule takeN_loop.raw_induct[where P = "\<lambda>ts0 peek0 next0 limit0 results origins c ss y.
      ts0 = ts \<longrightarrow> peek0 = peek \<longrightarrow> next0 = next \<longrightarrow> limit0 = limit \<longrightarrow> I results origins ss \<longrightarrow>
          (\<forall>res orig ss'. y = Inr (res, orig, ss') \<longrightarrow> I res orig ss')", OF _ that], goal_cases)
    case (1 loop ts0 peek0 next0 limit0 results origins c ss y)
    show ?case
    proof (intro impI allI)
      fix res orig ss'
      assume eqs: "ts0 = ts" "peek0 = peek" "next0 = next" "limit0 = limit"
        and I: "I results origins ss" and y: "y = Inr (res, orig, ss')"
      show "I res orig ss'"
      proof (cases "js_lt (Fin (real (length results))) limit")
        case False
        then show ?thesis using 1(2) eqs I y by simp
      next
        case True
        obtain s1 out where r: "merge_round ts peek next ss = (s1, out)" by (cases "merge_round ts peek next ss")
        show ?thesis
        proof (cases out)
          case Exhausted
          then show ?thesis using 1(2) eqs I y True r exh[OF I] by simp
        next
          case (Failed e)
          then show ?thesis using 1(2) eqs y True r by simp
        next
          case (Appended w v)
          then have "loop ts peek next limit (results @ [v]) (origins @ [w]) 0 s1 = Some y"
            using 1(2) eqs True r by simp
          from 1(1)[OF this] app[OF I True] r Appended y show ?thesis by simp
        next
          case (NoValue w)
          then have "loop ts peek next limit results origins (c + 1) s1 = Some y"
            using 1(2) eqs True r y by (simp split: if_splits)
          from 1(1)[OF this] nov[OF I] r NoValue y show ?thesis by simp
        qed
      qed
    qed
  qed
  from this[OF run] I0 show ?thesis by simp
qed

lemma descending_Cons:
  "descending ts (h # rest) \<longleftrightarrow>
     keyed ts h \<and> (\<forall>b\<in>set rest. js_ge (key_of ts h) (key_of ts b)) \<and> descending ts rest"
  by (auto simp: descending_def)

lemma js_ge_refl: "keyed ts h \<Longrightarrow> js_ge (key_of ts h) (key_of ts h)"
  by (simp add: js_ge_def js_eq_def keyed_Inr)

lemma head_precedes:
  assumes "precedes ts v w h j" and "descending ts (h # rest)" and "b \<in> set (h # rest)"
  shows "precedes ts v w b j"
proof -
  have "js_ge (key_of ts h) (key_of ts b)"
    using assms(2,3) by (auto simp: descending_Cons js_ge_refl)
  with assms(1) show ?thesis by (rule precedes_ge)
qed

lemma precedes_same: "js_ge (key_of ts v) (key_of ts b) \<Longrightarrow> precedes ts v w b w"
  by (auto simp: precedes_def js_ge_def)

lemma round_items_Appended:
  assumes c: "stream_contract items peek next"
    and r: "merge_round ts peek next ss = (ss', Appended w v)"
  shows "w < length ss" and "items (ss ! w) = v # items (ss' ! w)"
    and "\<forall>j<length ss. j \<noteq> w \<longrightarrow> items (ss' ! j) = items (ss ! j)"
    and "fst (peek (ss ! w)) = Some v"
proof -
  from merge_round_states[OF r, of w v]
  have w: "w < length ss"
    and ss': "ss' = (map (\<lambda>s. snd (peek s)) ss)[w := snd (next (snd (peek (ss ! w))))]"
    and v: "r_value (fst (next (snd (peek (ss ! w))))) = Some v"
           "\<not> r_done (fst (next (snd (peek (ss ! w)))))"
    by auto
  show "w < length ss" by fact
  from contract_next_Some[OF c v] contract_peek(2)[OF c]
  have "items (ss ! w) = v # items (snd (next (snd (peek (ss ! w)))))" by simp
  then show iw: "items (ss ! w) = v # items (ss' ! w)" using w by (simp add: ss')
  show "\<forall>j<length ss. j \<noteq> w \<longrightarrow> items (ss' ! j) = items (ss ! j)"
    using contract_peek(2)[OF c] by (simp add: ss')
  show "fst (peek (ss ! w)) = Some v"
    using contract_peek(1)[OF c, of "ss ! w"] iw by simp
qed

lemma round_items_same:
  assumes c: "stream_contract items peek next"
    and r: "merge_round ts peek next ss = (ss', out)"
    and out: "\<forall>w v. out \<noteq> Appended w v"
  shows "map items ss' = map items ss"
proof -
  have peeked: "map items (map (\<lambda>s. snd (peek s)) ss) = map items ss"
    using contract_peek(2)[OF c] by simp
  show ?thesis
  proof (cases out)
    case Exhausted
    with merge_round_states[OF r] peeked show ?thesis by simp
  next
    case (Failed e)
    with merge_round_states[OF r] peeked show ?thesis by simp
  next
    case (Appended w v)
    with out show ?thesis by simp
  next
    case (NoValue w)
    from merge_round_states[OF r, of w undefined] NoValue
    have w: "w < length ss"
      and ss': "ss' = (map (\<lambda>s. snd (peek s)) ss)[w := snd (next (snd (peek (ss ! w))))]"
      and v: "r_value (fst (next (snd (peek (ss ! w))))) = None \<or>
              r_done (fst (next (snd (peek (ss ! w)))))"
      by auto
    from contract_next_None[OF c v] contract_peek(2)[OF c]
    have "items (snd (next (snd (peek (ss ! w))))) = items (ss ! w)" by simp
    then show ?thesis using w contract_peek(2)[OF c]
      by (auto simp: ss' list_eq_iff_nth_eq nth_list_update)
  qed
qed

lemma merge_inv_same:
  assumes "merge_inv ts items rs os ss" and "map items ss' = map items ss"
  shows "merge_inv ts items rs os ss'"
proof -
  have len: "length ss' = length ss" using assms(2) by (metis length_map)
  have nth: "items (ss' ! j) = items (ss ! j)" if "j < length ss" for j
    using that assms(2) len by (metis nth_map)
  show ?thesis using assms(1) unfolding merge_inv_def len by (simp add: nth)
qed

lemma merge_inv_Appended:
  assumes c: "stream_contract items peek next"
    and inv: "merge_inv ts items rs os ss"
    and r: "merge_round ts peek next ss = (ss', Appended w v)"
  shows "merge_inv ts items (rs @ [v]) (os @ [w]) ss'"
proof -
  note ri = round_items_Appended[OF c r]
  have len: "length ss' = length ss" using r by (rule merge_round_length)
  from inv have leno: "length os = length rs"
    and desc: "\<And>j. j < length ss \<Longrightarrow> descending ts (items (ss ! j))"
    and sorted: "sorted_wrt (\<lambda>(a, i) (b, j). precedes ts a i b j) (zip rs os)"
    and old: "\<And>a i j b. (a, i) \<in> set (zip rs os) \<Longrightarrow> j < length ss \<Longrightarrow> b \<in> set (items (ss ! j))
                 \<Longrightarrow> precedes ts a i b j"
    unfolding merge_inv_def by auto
  have sub: "set (items (ss' ! j)) \<subseteq> set (items (ss ! j))" if "j < length ss" for j
    using ri(2,3) that by (cases "j = w") auto
  have desc': "descending ts (items (ss' ! j))" if "j < length ss" for j
  proof (cases "j = w")
    case True
    then show ?thesis using desc[OF ri(1)] ri(2) by (simp add: descending_Cons)
  next
    case False
    then show ?thesis using desc[OF that] ri(3) that by simp
  qed
  have heads: "\<forall>i<length ss. \<forall>t. fst (peek (ss ! i)) = Some t \<longrightarrow> keyed ts t"
  proof (intro allI impI)
    fix i t assume i: "i < length ss" and t: "fst (peek (ss ! i)) = Some t"
    from t contract_peek(1)[OF c, of "ss ! i"] obtain rest where "items (ss ! i) = t # rest"
      by (auto split: list.splits)
    with desc[OF i] show "keyed ts t" by (simp add: descending_Cons)
  qed
  from merge_round_winner[OF r _ heads, of w v] ri(4)
  have win: "\<And>j t. j < length ss \<Longrightarrow> fst (peek (ss ! j)) = Some t \<Longrightarrow> precedes ts v w t j"
    by auto
  have new: "precedes ts v w b j" if j: "j < length ss" and b: "b \<in> set (items (ss' ! j))" for j b
  proof (cases "j = w")
    case True
    from desc[OF ri(1)] ri(2) b True have "js_ge (key_of ts v) (key_of ts b)"
      by (auto simp: descending_Cons)
    then show ?thesis unfolding True by (rule precedes_same)
  next
    case False
    with ri(3) j b have bin: "b \<in> set (items (ss ! j))" by simp
    then obtain h rest where h: "items (ss ! j) = h # rest" by (cases "items (ss ! j)") auto
    then have "fst (peek (ss ! j)) = Some h" using contract_peek(1)[OF c, of "ss ! j"] by simp
    from win[OF j this] desc[OF j] bin show ?thesis unfolding h by (rule head_precedes)
  qed
  have zip: "zip (rs @ [v]) (os @ [w]) = zip rs os @ [(v, w)]" using leno by simp
  have vin: "v \<in> set (items (ss ! w))" using ri(2) by simp
  have s': "sorted_wrt (\<lambda>(a, i) (b, j). precedes ts a i b j) (zip rs os @ [(v, w)])"
    using sorted old[OF _ ri(1) vin] by (auto simp: sorted_wrt_append)
  have all': "\<forall>(a, i)\<in>set (zip rs os @ [(v, w)]). \<forall>j<length ss'. \<forall>b\<in>set (items (ss' ! j)).
               precedes ts a i b j"
    using old new sub unfolding len by auto blast
  show ?thesis unfolding merge_inv_def zip len using leno desc' s' all'[unfolded len] by simp
qed

lemma merge_inv_ordered:
  assumes "merge_inv ts items res orig ss"
  shows "ordered_output ts res orig"
proof -
  from assms have len: "length orig = length res"
    and sorted: "sorted_wrt (\<lambda>(a, i) (b, j). precedes ts a i b j) (zip res orig)"
    unfolding merge_inv_def by auto
  have nth: "precedes ts (res ! i) (orig ! i) (res ! j) (orig ! j)" if "i < j" "j < length res" for i j
    using sorted that len by (auto simp: sorted_wrt_iff_nth_less)
  have "js_ge (key_of ts (res ! i)) (key_of ts (res ! j))" if "i < j" "j < length res" for i j
    using nth[OF that] by (auto simp: precedes_def js_ge_def)
  then have s: "sorted_wrt (\<lambda>a b. js_ge (key_of ts a) (key_of ts b)) res"
    by (simp add: sorted_wrt_iff_nth_less)
  have "orig ! i \<le> orig ! j"
    if "i < j" "j < length res" "js_eq (key_of ts (res ! i)) (key_of ts (res ! j))" for i j
    using nth[OF that(1,2)] that(3) by (auto simp: precedes_def js_gt_def js_eq_def js_lt_irrefl)
  with s len show ?thesis unfolding ordered_output_def by blast
qed

lemma merge_inv_init:
  "\<forall>s\<in>set ss. descending ts (items s) \<Longrightarrow> merge_inv ts items [] [] ss"
  by (simp add: merge_inv_def)

lemma takeN_loop_random_merge_inv:
  assumes c: "stream_contract items peek next"
    and run: "takeN_loop_random ts peek next limit rs os ss = Some (Inr (res, orig, ss'))"
    and inv: "merge_inv ts items rs os ss"
  shows "merge_inv ts items res orig ss'"
  using run inv
proof (rule takeN_loop_random_invariant[where I = "merge_inv ts items"])
  show "merge_inv ts items (rs @ [v]) (os @ [w]) s'"
    if "merge_inv ts items rs os s" "merge_round ts peek next s = (s', Appended w v)" for rs os s s' w v
    using c that by (rule merge_inv_Appended)
  show "merge_inv ts items rs os s'"
    if "merge_inv ts items rs os s" "merge_round ts peek next s = (s', NoValue w)" for rs os s s' w
    using that(1) round_items_same[OF c that(2)] by (auto intro: merge_inv_same)
  show "merge_inv ts items rs os s'"
    if "merge_inv ts items rs os s" "merge_round ts peek next s = (s', Exhausted)" for rs os s s'
    using that(1) round_items_same[OF c that(2)] by (auto intro: merge_inv_same)
qed

lemma takeN_loop_merge_inv:
  assumes c: "stream_contract items peek next"
    and run: "takeN_loop ts peek next limit rs os k ss = Some (Inr (res, orig, ss'))"
    and inv: "merge_inv ts items rs os ss"
  shows "merge_inv ts items res orig ss'"
  using run inv
proof (rule takeN_loop_invariant[where I = "merge_inv ts items"])
  show "merge_inv ts items (rs @ [v]) (os @ [w]) s'"
    if "merge_inv ts items rs os s" "merge_round ts peek next s = (s', Appended w v)" for rs os s s' w v
    using c that by (rule merge_inv_Appended)
  show "merge_inv ts items rs os s'"
    if "merge_inv ts items rs os s" "merge_round ts peek next s = (s', NoValue w)" for rs os s s' w
    using that(1) round_items_same[OF c that(2)] by (auto intro: merge_inv_same)
  show "merge_inv ts items rs os s'"
    if "merge_inv ts items rs os s" "merge_round ts peek next s = (s', Exhausted)" for rs os s s'
    using that(1) round_items_same[OF c that(2)] by (auto intro: merge_inv_same)
qed

lemma produced_from_init: "produced_from items ss [] [] ss"
  by (simp add: produced_from_def)

lemma produced_from_same:
  assumes "produced_from items ss0 rs os ss" and "map items ss' = map items ss"
  shows "produced_from items ss0 rs os ss'"
proof -
  have len: "length ss' = length ss" using assms(2) by (metis length_map)
  have nth: "items (ss' ! j) = items (ss ! j)" if "j < length ss" for j
    using that assms(2) len by (metis nth_map)
  show ?thesis using assms(1) unfolding produced_from_def len by (simp add: nth)
qed

lemma produced_from_Appended:
  assumes c: "stream_contract items peek next"
    and inv: "produced_from items ss0 rs os ss"
    and r: "merge_round ts peek next ss = (ss', Appended w v)"
  shows "produced_from items ss0 (rs @ [v]) (os @ [w]) ss'"
proof -
  note ri = round_items_Appended[OF c r]
  have len: "length ss' = length ss" using r by (rule merge_round_length)
  from inv have l0: "length ss = length ss0" and leno: "length os = length rs"
    and rng: "\<forall>k\<in>set os. k < length ss0"
    and pre: "\<And>j. j < length ss0 \<Longrightarrow>
        items (ss0 ! j) = map fst (filter (\<lambda>p. snd p = j) (zip rs os)) @ items (ss ! j)"
    unfolding produced_from_def by auto
  have zip: "zip (rs @ [v]) (os @ [w]) = zip rs os @ [(v, w)]" using leno by simp
  have "items (ss0 ! j) = map fst (filter (\<lambda>p. snd p = j) (zip rs os @ [(v, w)])) @ items (ss' ! j)"
    if "j < length ss0" for j
  proof (cases "j = w")
    case True
    then show ?thesis using pre[OF that] ri(2) by simp
  next
    case False
    then show ?thesis using pre[OF that] ri(3) that l0 by simp
  qed
  then show ?thesis unfolding produced_from_def zip using len l0 leno rng ri(1) by simp
qed

lemma takeN_loop_random_produced:
  assumes c: "stream_contract items peek next"
    and run: "takeN_loop_random ts peek next limit rs os ss = Some (Inr (res, orig, ss'))"
    and inv: "produced_from items ss0 rs os ss"
  shows "produced_from items ss0 res orig ss'"
  using run inv
proof (rule takeN_loop_random_invariant[where I = "produced_from items ss0"])
  show "produced_from items ss0 (rs @ [v]) (os @ [w]) s'"
    if "produced_from items ss0 rs os s" "merge_round ts peek next s = (s', Appended w v)" for rs os s s' w v
    using c that by (rule produced_from_Appended)
  show "produced_from items ss0 rs os s'"
    if "produced_from items ss0 rs os s" "merge_round ts peek next s = (s', NoValue w)" for rs os s s' w
    using that(1) round_items_same[OF c that(2)] by (auto intro: produced_from_same)
  show "produced_from items ss0 rs os s'"
    if "produced_from items ss0 rs os s" "merge_round ts peek next s = (s', Exhausted)" for rs os s s'
    using that(1) round_items_same[OF c that(2)] by (auto intro: produced_from_same)
qed

lemma takeN_loop_produced:
  assumes c: "stream_contract items peek next"
    and run: "takeN_loop ts peek next limit rs os k ss = Some (Inr (res, orig, ss'))"
    and inv: "produced_from items ss0 rs os ss"
  shows "produced_from items ss0 res orig ss'"
  using run inv
proof (rule takeN_loop_invariant[where I = "produced_from items ss0"])
  show "produced_from items ss0 (rs @ [v]) (os @ [w]) s'"
    if "produced_from items ss0 rs os s" "merge_round ts peek next s = (s', Appended w v)" for rs os s s' w v
    using c that by (rule produced_from_Appended)
  show "produced_from items ss0 rs os s'"
    if "produced_from items ss0 rs os s" "merge_round ts peek next s = (s', NoValue w)" for rs os s s' w
    using that(1) round_items_same[OF c that(2)] by (auto intro: produced_from_same)
  show "produced_from items ss0 rs os s'"
    if "produced_from items ss0 rs os s" "merge_round ts peek next s = (s', Exhausted)" for rs os s s'
    using that(1) round_items_same[OF c that(2)] by (auto intro: produced_from_same)
qed

lemma sum_list_differ_one:
  assumes "length ys = length xs" and "w < length xs"
    and "\<forall>j<length xs. j \<noteq> w \<longrightarrow> f (ys ! j) = f (xs ! j)"
    and "f (xs ! w) = Suc (f (ys ! w))"
  shows "sum_list (map f xs) = Suc (sum_list (map f ys))"
proof -
  have w: "w \<in> {0..<length xs}" using assms(2) by simp
  have "sum_list (map f xs) = (\<Sum>i = 0..<length xs. f (xs ! i))"
    by (simp add: sum_list_sum_nth)
  also have "\<dots> = f (xs ! w) + (\<Sum>i\<in>{0..<length xs} - {w}. f (xs ! i))"
    using w by (simp add: sum.remove)
  also have "(\<Sum>i\<in>{0..<length xs} - {w}. f (xs ! i)) = (\<Sum>i\<in>{0..<length xs} - {w}. f (ys ! i))"
    using assms(3) by (intro sum.cong) auto
  also have "f (xs ! w) + \<dots> = Suc (f (ys ! w) + (\<Sum>i\<in>{0..<length xs} - {w}. f (ys ! i)))"
    using assms(4) by simp
  also have "f (ys ! w) + (\<Sum>i\<in>{0..<length xs} - {w}. f (ys ! i)) = (\<Sum>i = 0..<length xs. f (ys ! i))"
    using w by (simp add: sum.remove)
  also have "\<dots> = sum_list (map f ys)"
    using assms(1) by (simp add: sum_list_sum_nth)
  finally show ?thesis .
qed

lemma count_inv_Appended:
  assumes c: "stream_contract items peek next"
    and inv: "count_inv items tot n rs os ss"
    and g: "js_lt (Fin (real (length rs))) (Fin (real n))"
    and r: "merge_round ts peek next ss = (ss', Appended w v)"
  shows "count_inv items tot n (rs @ [v]) (os @ [w]) ss'"
proof -
  note ri = round_items_Appended[OF c r]
  have len: "length ss' = length ss" using r by (rule merge_round_length)
  have "sum_list (map (\<lambda>s. length (items s)) ss) = Suc (sum_list (map (\<lambda>s. length (items s)) ss'))"
    using len ri(1) ri(3) ri(2) by (intro sum_list_differ_one) auto
  then show ?thesis using inv g by (simp add: count_inv_def total_items_def)
qed

lemma count_inv_same:
  assumes "count_inv items tot n rs os ss" and "map items ss' = map items ss"
  shows "count_inv items tot n rs os ss'"
proof -
  have "map (\<lambda>s. length (items s)) ss' = map (\<lambda>s. length (items s)) ss"
    using arg_cong[OF assms(2), of "map length"] by (simp add: comp_def)
  then show ?thesis using assms(1) by (simp add: count_inv_def total_items_def)
qed

lemma takeN_loop_random_count:
  assumes c: "stream_contract items peek next"
    and run: "takeN_loop_random ts peek next (Fin (real n)) rs os ss = Some (Inr (res, orig, ss'))"
    and inv: "count_inv items tot n rs os ss"
  shows "count_inv items tot n res orig ss'"
  using run inv
proof (rule takeN_loop_random_invariant[where I = "count_inv items tot n"])
  show "count_inv items tot n (rs @ [v]) (os @ [w]) s'"
    if "count_inv items tot n rs os s" "js_lt (Fin (real (length rs))) (Fin (real n))"
      "merge_round ts peek next s = (s', Appended w v)" for rs os s s' w v
    using c that by (rule count_inv_Appended)
  show "count_inv items tot n rs os s'"
    if "count_inv items tot n rs os s" "merge_round ts peek next s = (s', NoValue w)" for rs os s s' w
    using that(1) round_items_same[OF c that(2)] by (auto intro: count_inv_same)
  show "count_inv items tot n rs os s'"
    if "count_inv items tot n rs os s" "merge_round ts peek next s = (s', Exhausted)" for rs os s s'
    using that(1) round_items_same[OF c that(2)] by (auto intro: count_inv_same)
qed

lemma takeN_loop_count:
  assumes c: "stream_contract items peek next"
    and run: "takeN_loop ts peek next (Fin (real n)) rs os k ss = Some (Inr (res, orig, ss'))"
    and inv: "count_inv items tot n rs os ss"
  shows "count_inv items tot n res orig ss'"
  using run inv
proof (rule takeN_loop_invariant[where I = "count_inv items tot n"])
  show "count_inv items tot n (rs @ [v]) (os @ [w]) s'"
    if "count_inv items tot n rs os s" "js_lt (Fin (real (length rs))) (Fin (real n))"
      "merge_round ts peek next s = (s', Appended w v)" for rs os s s' w v
    using c that by (rule count_inv_Appended)
  show "count_inv items tot n rs os s'"
    if "count_inv items tot n rs os s" "merge_round ts peek next s = (s', NoValue w)" for rs os s s' w
    using that(1) round_items_same[OF c that(2)] by (auto intro: count_inv_same)
  show "count_inv items tot n rs os s'"
    if "count_inv items tot n rs os s" "merge_round ts peek next s = (s', Exhausted)" for rs os s s'
    using that(1) round_items_same[OF c that(2)] by (auto intro: count_inv_same)
qed

lemma takeN_loop_terminates_bounded:
  assumes B: "\<forall>k. js_lt (Fin (real k)) limit \<longrightarrow> k < B"
  shows "\<exists>r. takeN_loop ts peek next limit rs os c ss = Some r"
proof (induction "4 * (B - length rs) + (3 - c)" arbitrary: rs os c ss rule: less_induct)
  case less
  show ?case
  proof (cases "js_lt (Fin (real (length rs))) limit")
    case False
    then show ?thesis by (subst takeN_loop.simps) simp
  next
    case True
    with B have lt: "length rs < B" by blast
    obtain s1 out where r: "merge_round ts peek next ss = (s1, out)"
      by (cases "merge_round ts peek next ss")
    show ?thesis
    proof (cases out)
      case Exhausted
      then show ?thesis using True r by (subst takeN_loop.simps) simp
    next
      case (Failed e)
      then show ?thesis using True r by (subst takeN_loop.simps) simp
    next
      case (Appended w v)
      have "4 * (B - length (rs @ [v])) + (3 - 0) < 4 * (B - length rs) + (3 - c)"
        using lt by simp
      from less[OF this] obtain y where
        "takeN_loop ts peek next limit (rs @ [v]) (os @ [w]) 0 s1 = Some y" by blast
      then show ?thesis using True r Appended by (subst takeN_loop.simps) simp
    next
      case (NoValue w)
      show ?thesis
      proof (cases "c + 1 \<ge> MAX_EMPTY_PEEKS")
        case True
        then show ?thesis using \<open>js_lt (Fin (real (length rs))) limit\<close> r NoValue
          by (subst takeN_loop.simps) simp
      next
        case False
        then have "4 * (B - length rs) + (3 - (c + 1)) < 4 * (B - length rs) + (3 - c)"
          by (simp add: MAX_EMPTY_PEEKS_def)
        from less[OF this] obtain y where
          "takeN_loop ts peek next limit rs os (c + 1) s1 = Some y" by blast
        then show ?thesis using False \<open>js_lt (Fin (real (length rs))) limit\<close> r NoValue
          by (subst takeN_loop.simps) simp
      qed
    qed
  qed
qed

lemma takeN_loop_terminates:
  assumes "limit \<noteq> PosInf"
  shows "\<exists>r. takeN_loop ts peek next limit rs os c ss = Some r"
proof -
  have "\<exists>B. \<forall>k. js_lt (Fin (real k)) limit \<longrightarrow> k < B"
  proof (cases limit)
    case (Fin x)
    have "k < nat \<lceil>x\<rceil>" if "real k < x" for k
      using that by linarith
    then show ?thesis using Fin by auto
  qed (use assms in auto)
  then show ?thesis using takeN_loop_terminates_bounded by blast
qed

lemma takeN_returns: "\<exists>r. takeN parse peek next streams limit = Some r"
proof (cases "Number_isFinite limit")
  case True
  then have "limit \<noteq> PosInf" by auto
  from takeN_loop_terminates[OF this] show ?thesis by (auto simp: takeN_def)
next
  case False
  then show ?thesis by (simp add: takeN_def)
qed

lemma timestamp_agree:
  "getTransactionTimestamp parse t = Inr k \<Longrightarrow> getTransactionTimestamp_random parse t = k"
  by (cases t) (auto split: option.splits if_splits)

lemma pick_agree:
  assumes "\<forall>t k. ts1 t = Inr k \<longrightarrow> ts2 t = Inr k" and "pick ts1 a b = Inr w"
  shows "pick ts2 a b = Inr w"
proof -
  from assms(2) obtain ta tb ka kb where "transaction a = Some ta" "transaction b = Some tb"
    "ts1 ta = Inr ka" "ts1 tb = Inr kb"
    by (auto simp: pick_def split: option.splits sum.splits)
  moreover from this assms(1) have "ts2 ta = Inr ka" "ts2 tb = Inr kb" by auto
  ultimately show ?thesis using assms(2) by (simp add: pick_def)
qed

lemma reduce_agree:
  assumes "\<forall>t k. ts1 t = Inr k \<longrightarrow> ts2 t = Inr k" and "reduce (pick ts1) p ps = Inr w"
  shows "reduce (pick ts2) p ps = Inr w"
  using assms(2)
proof (induction ps arbitrary: p)
  case Nil
  then show ?case by simp
next
  case (Cons x xs)
  then obtain q where q: "pick ts1 p x = Inr q" and r: "reduce (pick ts1) q xs = Inr w"
    by (auto split: sum.splits)
  from pick_agree[OF assms(1) q] Cons.IH[OF r] show ?case by simp
qed

lemma merge_round_agree:
  assumes a: "\<forall>t k. ts1 t = Inr k \<longrightarrow> ts2 t = Inr k"
    and r: "merge_round ts1 peek next ss = (ss', out)" and nf: "\<forall>e. out \<noteq> Failed e"
  shows "merge_round ts2 peek next ss = (ss', out)"
proof (cases "available peek ss")
  case Nil
  then show ?thesis using r by (simp add: merge_round_unfold)
next
  case (Cons p ps)
  with r nf obtain w where w: "reduce (pick ts1) p ps = Inr w"
    by (cases "reduce (pick ts1) p ps") (auto simp: merge_round_unfold)
  from reduce_agree[OF a w] w r Cons show ?thesis by (simp add: merge_round_unfold)
qed

lemma takeN_loop_simulated:
  fixes peek :: "'s peek_fn"
  assumes a: "\<forall>t k. ts t = Inr k \<longrightarrow> ts' t = Inr k"
    and run: "takeN_loop ts peek next limit rs os c ss = Some (Inr r)"
  shows "takeN_loop_random ts' peek next limit rs os ss = Some (Inr r)"
proof -
  have "ts0 = ts \<longrightarrow> (\<forall>r. y = Inr r \<longrightarrow> takeN_loop_random ts' peek0 next0 limit0 rs os ss = Some (Inr r))"
    if "takeN_loop ts0 peek0 next0 limit0 rs os c ss = Some y"
    for ts0 and peek0 :: "'s peek_fn" and next0 limit0 rs os c ss y
  proof (rule takeN_loop.raw_induct[where P = "\<lambda>ts0 peek0 next0 limit0 rs os c ss y.
      ts0 = ts \<longrightarrow> (\<forall>r. y = Inr r \<longrightarrow> takeN_loop_random ts' peek0 next0 limit0 rs os ss = Some (Inr r))",
      OF _ that], goal_cases)
    case (1 loop ts0 peek0 next0 limit0 rs os c ss y)
    show ?case
    proof (intro impI allI)
      fix r assume eq: "ts0 = ts" and y: "y = Inr r"
      show "takeN_loop_random ts' peek0 next0 limit0 rs os ss = Some (Inr r)"
      proof (cases "js_lt (Fin (real (length rs))) limit0")
        case False
        then show ?thesis using 1(2) y by (subst takeN_loop_random.simps) simp
      next
        case True
        obtain s1 out where r: "merge_round ts peek0 next0 ss = (s1, out)"
          by (cases "merge_round ts peek0 next0 ss")
        show ?thesis
        proof (cases out)
          case Exhausted
          with merge_round_agree[OF a r] have "merge_round ts' peek0 next0 ss = (s1, Exhausted)" by simp
          then show ?thesis using 1(2) eq y True r Exhausted
            by (subst takeN_loop_random.simps) simp
        next
          case (Failed e)
          then show ?thesis using 1(2) eq y True r by simp
        next
          case (Appended w v)
          with merge_round_agree[OF a r] have r': "merge_round ts' peek0 next0 ss = (s1, Appended w v)"
            by simp
          from Appended have "loop ts peek0 next0 limit0 (rs @ [v]) (os @ [w]) 0 s1 = Some y"
            using 1(2) eq True r by simp
          from 1(1)[OF this] y
          have "takeN_loop_random ts' peek0 next0 limit0 (rs @ [v]) (os @ [w]) s1 = Some (Inr r)"
            by simp
          then show ?thesis using True r' by (subst takeN_loop_random.simps) simp
        next
          case (NoValue w)
          with merge_round_agree[OF a r] have r': "merge_round ts' peek0 next0 ss = (s1, NoValue w)"
            by simp
          from NoValue have "loop ts peek0 next0 limit0 rs os (c + 1) s1 = Some y"
            using 1(2) eq True r y by (simp split: if_splits)
          from 1(1)[OF this] y
          have "takeN_loop_random ts' peek0 next0 limit0 rs os s1 = Some (Inr r)"
            by simp
          then show ?thesis using True r' by (subst takeN_loop_random.simps) simp
        qed
      qed
    qed
  qed
  from this[OF run] show ?thesis by simp
qed

lemma takeN_simulated:
  assumes "takeN parse peek next streams limit = Some (Inr r)"
  shows "takeN_random parse peek next streams limit = Some (Inr r)"
proof -
  from assms have "takeN_loop (getTransactionTimestamp parse) peek next limit [] [] 0 streams = Some (Inr r)"
    by (simp add: takeN_def split: if_splits)
  then show ?thesis unfolding takeN_random_def
    by (rule takeN_loop_simulated[rotated]) (simp add: timestamp_agree)
qed

lemma reduce_pick_malformed:
  assumes "\<forall>c\<in>set (p # ps). transaction c \<noteq> None" and "ps \<noteq> []"
    and "\<exists>c\<in>set (p # ps). \<exists>t e. transaction c = Some t \<and> ts t = Inl e"
  shows "\<exists>c\<in>set (p # ps). \<exists>t e. transaction c = Some t \<and> ts t = Inl e
           \<and> reduce (pick ts) p ps = Inl e"
  using assms
proof (induction ps arbitrary: p)
  case Nil
  then show ?case by simp
next
  case (Cons x xs)
  from Cons.prems(1) obtain tp tx where tp: "transaction p = Some tp" and tx: "transaction x = Some tx"
    by auto
  show ?case
  proof (cases "ts tp")
    case (Inl e)
    then show ?thesis using tp by (auto simp: pick_def)
  next
    case kp: (Inr kp)
    show ?thesis
    proof (cases "ts tx")
      case (Inl e)
      then show ?thesis using tp tx kp by (auto simp: pick_def)
    next
      case kx: (Inr kx)
      then have "\<exists>q. pick ts p x = Inr q" using tp tx kp by (auto simp: pick_def)
      then obtain q where q: "pick ts p x = Inr q" by blast
      from pick_mem[OF q] have qq: "q = p \<or> q = x" .
      from Cons.prems(3) tp tx kp kx
      have bad: "\<exists>c\<in>set xs. \<exists>t e. transaction c = Some t \<and> ts t = Inl e" by auto
      then have ne: "xs \<noteq> []" by auto
      have all: "\<forall>c\<in>set (q # xs). transaction c \<noteq> None" using Cons.prems(1) qq by auto
      from bad have bad': "\<exists>c\<in>set (q # xs). \<exists>t e. transaction c = Some t \<and> ts t = Inl e" by auto
      from Cons.IH[OF all ne bad'] obtain c t e where c: "c \<in> set (q # xs)"
        "transaction c = Some t" "ts t = Inl e" "reduce (pick ts) q xs = Inl e" by blast
      have "c \<in> set (p # x # xs)" using c(1) qq by auto
      moreover have "reduce (pick ts) p (x # xs) = Inl e" using q c(4) by simp
      ultimately show ?thesis using c(2,3) by blast
    qed
  qed
qed

subsection \<open>One iteration of the loops\<close>

lemma takeN_loop_done:
  "\<not> js_lt (Fin (real (length rs))) limit \<Longrightarrow>
     takeN_loop ts peek next limit rs os c ss = Some (Inr (rs, os, ss))"
  by (subst takeN_loop.simps) simp

lemma takeN_loop_Exhausted:
  "js_lt (Fin (real (length rs))) limit \<Longrightarrow> merge_round ts peek next ss = (ss', Exhausted) \<Longrightarrow>
     takeN_loop ts peek next limit rs os c ss = Some (Inr (rs, os, ss'))"
  by (subst takeN_loop.simps) simp

lemma takeN_loop_Failed:
  "js_lt (Fin (real (length rs))) limit \<Longrightarrow> merge_round ts peek next ss = (ss', Failed e) \<Longrightarrow>
     takeN_loop ts peek next limit rs os c ss = Some (Inl (e, ss'))"
  by (subst takeN_loop.simps) simp

lemma takeN_loop_Appended:
  "js_lt (Fin (real (length rs))) limit \<Longrightarrow> merge_round ts peek next ss = (ss', Appended w v) \<Longrightarrow>
     takeN_loop ts peek next limit rs os c ss
       = takeN_loop ts peek next limit (rs @ [v]) (os @ [w]) 0 ss'"
  by (subst takeN_loop.simps) simp

lemma takeN_loop_NoValue:
  "js_lt (Fin (real (length rs))) limit \<Longrightarrow> merge_round ts peek next ss = (ss', NoValue w) \<Longrightarrow>
     takeN_loop ts peek next limit rs os c ss
       = (if c + 1 \<ge> MAX_EMPTY_PEEKS then Some (Inl (StallError, ss'))
          else takeN_loop ts peek next limit rs os (c + 1) ss')"
  by (subst takeN_loop.simps) simp

lemma takeN_loop_random_done:
  "\<not> js_lt (Fin (real (length rs))) limit \<Longrightarrow>
     takeN_loop_random ts peek next limit rs os ss = Some (Inr (rs, os, ss))"
  by (subst takeN_loop_random.simps) simp

lemma takeN_loop_random_Exhausted:
  "js_lt (Fin (real (length rs))) limit \<Longrightarrow> merge_round ts peek next ss = (ss', Exhausted) \<Longrightarrow>
     takeN_loop_random ts peek next limit rs os ss = Some (Inr (rs, os, ss'))"
  by (subst takeN_loop_random.simps) simp

lemma takeN_loop_random_Failed:
  "js_lt (Fin (real (length rs))) limit \<Longrightarrow> merge_round ts peek next ss = (ss', Failed e) \<Longrightarrow>
     takeN_loop_random ts peek next limit rs os ss = Some (Inl (e, ss'))"
  by (subst takeN_loop_random.simps) simp

lemma takeN_loop_random_Appended:
  "js_lt (Fin (real (length rs))) limit \<Longrightarrow> merge_round ts peek next ss = (ss', Appended w v) \<Longrightarrow>
     takeN_loop_random ts peek next limit rs os ss
       = takeN_loop_random ts peek next limit (rs @ [v]) (os @ [w]) ss'"
  by (subst takeN_loop_random.simps) simp

lemma takeN_loop_random_NoValue:
  "js_lt (Fin (real (length rs))) limit \<Longrightarrow> merge_round ts peek next ss = (ss', NoValue w) \<Longrightarrow>
     takeN_loop_random ts peek next limit rs os ss
       = takeN_loop_random ts peek next limit rs os ss'"
  by (subst takeN_loop_random.simps) simp

subsection \<open>The two normalisers give the same keys\<close>

lemma keyed_random:
  "keyed (\<lambda>t. Inr (getTransactionTimestamp_random parse t)) = keyed (getTransactionTimestamp parse)"
proof (rule ext)
  fix t show "keyed (\<lambda>t. Inr (getTransactionTimestamp_random parse t)) t
    = keyed (getTransactionTimestamp parse) t"
    by (cases t) (auto simp: keyed_def split: option.splits)
qed

lemma key_of_random:
  "key_of (\<lambda>t. Inr (getTransactionTimestamp_random parse t)) = key_of (getTransactionTimestamp parse)"
proof (rule ext)
  fix t show "key_of (\<lambda>t. Inr (getTransactionTimestamp_random parse t)) t
    = key_of (getTransactionTimestamp parse) t"
    by (cases t) (auto simp: key_of_def split: option.splits)
qed

lemma descending_random:
  "descending (\<lambda>t. Inr (getTransactionTimestamp_random parse t)) xs
     = descending (getTransactionTimestamp parse) xs"
  by (simp add: descending_def keyed_random key_of_random)

lemma ordered_output_random:
  "ordered_output (\<lambda>t. Inr (getTransactionTimestamp_random parse t)) res orig
     = ordered_output (getTransactionTimestamp parse) res orig"
  by (simp add: ordered_output_def key_of_random)

subsection \<open>Concrete runs\<close>

lemma fx_contract: "stream_contract buffer fx_peek fx_next"
  unfolding stream_contract_def
  by (auto simp: fx_peek_def fx_next_def split: list.splits)

lemmas round_eval = merge_round_def peek_all_def pick_def fx_peek_def fx_next_def fx_def btc_def
  js_gt_def js_eq_def enumerate_eq_zip

lemmas limit_eval = takeN_def takeN_random_def js_le_def js_gt_def js_eq_def MAX_ALLOWED_LIMIT_def
  MAX_EMPTY_PEEKS_def

lemma descending_btc2: "b \<le> a \<Longrightarrow> descending (getTransactionTimestamp parse) [btc a, btc b]"
  by (auto simp: descending_def keyed_def key_of_def btc_def js_ge_def js_gt_def js_eq_def)

lemma descending_btc1: "descending (getTransactionTimestamp parse) [btc a]"
  by (auto simp: descending_def keyed_def key_of_def btc_def js_ge_def js_gt_def js_eq_def)

lemma tie_round1:
  "merge_round (getTransactionTimestamp no_parse) fx_peek fx_next
     [fx [btc 100, btc 50] 0 0 0, fx [btc 100] 0 0 0]
   = ([fx [btc 50] 0 1 1, fx [btc 100] 0 1 0], Appended 0 (btc 100))"
  by (simp add: round_eval)

lemma tie_round2:
  "merge_round (getTransactionTimestamp no_parse) fx_peek fx_next
     [fx [btc 50] 0 1 1, fx [btc 100] 0 1 0]
   = ([fx [btc 50] 0 2 1, fx [] 0 2 1], Appended 1 (btc 100))"
  by (simp add: round_eval)

lemma tie_round3:
  "merge_round (getTransactionTimestamp no_parse) fx_peek fx_next
     [fx [btc 50] 0 2 1, fx [] 0 2 1]
   = ([fx [] 0 3 2, fx [] 0 3 1], Appended 0 (btc 50))"
  by (simp add: round_eval)

lemma run_tie:
  "takeN no_parse fx_peek fx_next [fx [btc 100, btc 50] 0 0 0, fx [btc 100] 0 0 0] (Fin 3)
     = Some (Inr ([btc 100, btc 100, btc 50], [0, 1, 0], [fx [] 0 3 2, fx [] 0 3 1]))"
  by (simp add: limit_eval takeN_loop_Appended[OF _ tie_round1] takeN_loop_Appended[OF _ tie_round2]
      takeN_loop_Appended[OF _ tie_round3] takeN_loop_done del: One_nat_def)

lemma run_tie_random:
  "takeN_random no_parse fx_peek fx_next [fx [btc 100, btc 50] 0 0 0, fx [btc 100] 0 0 0] (Fin 3)
     = Some (Inr ([btc 100, btc 100, btc 50], [0, 1, 0], [fx [] 0 3 2, fx [] 0 3 1]))"
  by (rule takeN_simulated[OF run_tie])

subsection \<open>Further lemmas and runs for the claims\<close>

lemma takeN_loop_stall:
  assumes g: "js_lt (Fin (real (length rs))) limit"
    and r1: "merge_round ts peek next ss0 = (ss1, NoValue w1)"
    and r2: "merge_round ts peek next ss1 = (ss2, NoValue w2)"
    and r3: "merge_round ts peek next ss2 = (ss3, NoValue w3)"
  shows "\<exists>ss'. takeN_loop ts peek next limit rs os c ss0 = Some (Inl (StallError, ss'))"
    and "c = 0 \<Longrightarrow> takeN_loop ts peek next limit rs os c ss0 = Some (Inl (StallError, ss3))"
proof -
  note s1 = takeN_loop_NoValue[OF g r1, of os] and s2 = takeN_loop_NoValue[OF g r2, of os]
    and s3 = takeN_loop_NoValue[OF g r3, of os]
  show "\<exists>ss'. takeN_loop ts peek next limit rs os c ss0 = Some (Inl (StallError, ss'))"
    by (simp add: s1 s2 s3 MAX_EMPTY_PEEKS_def)
  show "takeN_loop ts peek next limit rs os c ss0 = Some (Inl (StallError, ss3))" if "c = 0"
    using that by (simp add: s1 s2 s3 MAX_EMPTY_PEEKS_def)
qed

lemma takeN_stall:
  assumes v: "\<not> js_le limit (Fin 0)" "Number_isFinite limit" "\<not> js_gt limit MAX_ALLOWED_LIMIT"
    and r1: "merge_round (getTransactionTimestamp parse) peek next streams = (ss1, NoValue w1)"
    and r2: "merge_round (getTransactionTimestamp parse) peek next ss1 = (ss2, NoValue w2)"
    and r3: "merge_round (getTransactionTimestamp parse) peek next ss2 = (ss3, NoValue w3)"
  shows "takeN parse peek next streams limit = Some (Inl (StallError, ss3))"
proof -
  from v obtain x where "limit = Fin x" by (cases limit) auto
  with v have g: "js_lt (Fin (real (length ([]::tx list)))) limit"
    by (auto simp: js_le_def js_eq_def)
  from takeN_loop_stall(2)[OF g r1 r2 r3] v show ?thesis by (simp add: takeN_def)
qed

lemma takeN_loop_append_resets:
  assumes "js_lt (Fin (real (length rs))) limit"
    and "merge_round ts peek next ss = (ss', Appended w v)"
  shows "takeN_loop ts peek next limit rs os c ss = takeN_loop ts peek next limit (rs @ [v]) (os @ [w]) 0 ss'"
  using assms by (rule takeN_loop_Appended)

lemma stall_round1:
  "merge_round (getTransactionTimestamp no_parse) fx_peek fx_next
     [fx [btc 100] 3 0 0, fx [btc 90] 0 0 0]
   = ([fx [btc 100] 2 1 1, fx [btc 90] 0 1 0], NoValue 0)"
  by (simp add: round_eval)

lemma stall_round2:
  "merge_round (getTransactionTimestamp no_parse) fx_peek fx_next
     [fx [btc 100] 2 1 1, fx [btc 90] 0 1 0]
   = ([fx [btc 100] 1 2 2, fx [btc 90] 0 2 0], NoValue 0)"
  by (simp add: round_eval)

lemma stall_round3:
  "merge_round (getTransactionTimestamp no_parse) fx_peek fx_next
     [fx [btc 100] 1 2 2, fx [btc 90] 0 2 0]
   = ([fx [btc 100] 0 3 3, fx [btc 90] 0 3 0], NoValue 0)"
  by (simp add: round_eval)

lemma stall_round1_random:
  "merge_round (\<lambda>t. Inr (getTransactionTimestamp_random no_parse t)) fx_peek fx_next
     [fx [btc 100] 3 0 0, fx [btc 90] 0 0 0]
   = ([fx [btc 100] 2 1 1, fx [btc 90] 0 1 0], NoValue 0)"
  by (simp add: round_eval)

lemma stall_round2_random:
  "merge_round (\<lambda>t. Inr (getTransactionTimestamp_random no_parse t)) fx_peek fx_next
     [fx [btc 100] 2 1 1, fx [btc 90] 0 1 0]
   = ([fx [btc 100] 1 2 2, fx [btc 90] 0 2 0], NoValue 0)"
  by (simp add: round_eval)

lemma stall_round3_random:
  "merge_round (\<lambda>t. Inr (getTransactionTimestamp_random no_parse t)) fx_peek fx_next
     [fx [btc 100] 1 2 2, fx [btc 90] 0 2 0]
   = ([fx [btc 100] 0 3 3, fx [btc 90] 0 3 0], NoValue 0)"
  by (simp add: round_eval)

lemma stall_round4_random:
  "merge_round (\<lambda>t. Inr (getTransactionTimestamp_random no_parse t)) fx_peek fx_next
     [fx [btc 100] 0 3 3, fx [btc 90] 0 3 0]
   = ([fx [] 0 4 4, fx [btc 90] 0 4 0], Appended 0 (btc 100))"
  by (simp add: round_eval)

lemma stall_round5_random:
  "merge_round (\<lambda>t. Inr (getTransactionTimestamp_random no_parse t)) fx_peek fx_next
     [fx [] 0 4 4, fx [btc 90] 0 4 0]
   = ([fx [] 0 5 4, fx [] 0 5 1], Appended 1 (btc 90))"
  by (simp add: round_eval)

lemma takeN_rejects_invalid_limit:
  "(js_le limit (Fin 0) \<or> \<not> Number_isFinite limit \<longrightarrow>
      takeN parse peek next streams limit = Some (Inl (InvalidLimit limit, streams)))
   \<and> (Number_isFinite limit \<and> js_gt limit (Fin 10000) \<longrightarrow>
      (\<exists>e. takeN parse peek next streams limit = Some (Inl (e, streams))
           \<and> (e = InvalidLimit limit \<or> e = LimitExceeded limit)))
   \<and> (\<not> js_le limit (Fin 0) \<and> Number_isFinite limit \<and> js_gt limit (Fin 10000) \<longrightarrow>
      takeN parse peek next streams limit = Some (Inl (LimitExceeded limit, streams)))"
  by (simp add: takeN_def MAX_ALLOWED_LIMIT_def)

lemma StreamMerger_rejects_no_streams:
  "StreamMerger None = Inl ConfigError \<and> StreamMerger (Some []) = Inl ConfigError
   \<and> (ss \<noteq> [] \<longrightarrow> StreamMerger (Some ss) = Inr ss)"
  by (simp add: StreamMerger_def)

lemma empty_round_random:
  "merge_round (\<lambda>t. Inr (getTransactionTimestamp_random no_parse t)) fx_peek fx_next []
   = ([], Exhausted)"
  by (simp add: round_eval)

lemma over_round1:
  "merge_round (\<lambda>t. Inr (getTransactionTimestamp_random no_parse t)) fx_peek fx_next [fx [btc 100] 0 0 0]
   = ([fx [] 0 1 1], Appended 0 (btc 100))"
  by (simp add: round_eval)

lemma over_round2:
  "merge_round (\<lambda>t. Inr (getTransactionTimestamp_random no_parse t)) fx_peek fx_next [fx [] 0 1 1]
   = ([fx [] 0 2 1], Exhausted)"
  by (simp add: round_eval)

lemma run_over_random:
  "takeN_random no_parse fx_peek fx_next [fx [btc 100] 0 0 0] (Fin 10001)
     = Some (Inr ([btc 100], [0], [fx [] 0 2 1]))"
  by (simp add: limit_eval takeN_loop_random_Appended[OF _ over_round1]
      takeN_loop_random_Exhausted[OF _ over_round2] del: One_nat_def)

lemma getTransactionTimestamp_malformed:
  "Date_getTime parse raw = None \<longrightarrow>
     getTransactionTimestamp parse (Starknet raw) = Inl (InvalidBlockTimestamp raw)
     \<and> getTransactionTimestamp parse (Spark (Some raw)) = Inl (InvalidCreatedAt raw)
     \<and> getTransactionTimestamp_random parse (Starknet raw) = NaN
     \<and> getTransactionTimestamp_random parse (Spark (Some raw)) = NaN"
  by simp

lemma getTransactionTimestamp_error_cases:
  "getTransactionTimestamp parse t = Inl e \<Longrightarrow>
     (\<exists>raw. t = Starknet raw \<and> Date_getTime parse raw = None \<and> e = InvalidBlockTimestamp raw)
     \<or> (\<exists>raw. t = Spark (Some raw) \<and> Date_getTime parse raw = None \<and> e = InvalidCreatedAt raw)"
  by (cases t) (auto split: option.splits if_splits)

lemma merge_round_malformed:
  assumes two: "i < length ss" "j < length ss" "i \<noteq> j"
    and pi: "fst (peek (ss ! i)) = Some t" and pj: "fst (peek (ss ! j)) = Some u"
    and bad: "ts t = Inl e0"
  shows "\<exists>k<length ss. \<exists>t' e. fst (peek (ss ! k)) = Some t' \<and> ts t' = Inl e
           \<and> merge_round ts peek next ss = (map (\<lambda>s. snd (peek s)) ss, Failed e)"
proof -
  let ?pi = "\<lparr>transaction = Some t, streamIndex = i\<rparr>"
  let ?pj = "\<lparr>transaction = Some u, streamIndex = j\<rparr>"
  have mi: "?pi \<in> set (available peek ss)" and mj: "?pj \<in> set (available peek ss)"
    using two pi pj by (auto simp: available_mem)
  have ne: "?pi \<noteq> ?pj" using two(3) by simp
  obtain p ps where av: "available peek ss = p # ps"
    using mi by (cases "available peek ss") auto
  have "ps \<noteq> []"
  proof
    assume "ps = []"
    with av mi mj have "?pi = p" "?pj = p" by auto
    with ne show False by simp
  qed
  moreover have "\<forall>c\<in>set (p # ps). transaction c \<noteq> None"
    unfolding av[symmetric] by (auto simp: available_mem)
  moreover have "\<exists>c\<in>set (p # ps). \<exists>t e. transaction c = Some t \<and> ts t = Inl e"
    using mi bad unfolding av by (intro bexI[of _ ?pi]) auto
  ultimately obtain c t' e where c: "c \<in> set (p # ps)" "transaction c = Some t'" "ts t' = Inl e"
    "reduce (pick ts) p ps = Inl e"
    using reduce_pick_malformed by blast
  from c(1,2) obtain k where "k < length ss" "fst (peek (ss ! k)) = Some t'"
    unfolding av[symmetric] available_mem by auto
  moreover have "merge_round ts peek next ss = (map (\<lambda>s. snd (peek s)) ss, Failed e)"
    using av c(4) by (simp add: merge_round_unfold)
  ultimately show ?thesis using c(3) by blast
qed

lemma malformed_round:
  "merge_round (getTransactionTimestamp no_parse) fx_peek fx_next
     [fx [Starknet (DString ''soon'')] 0 0 0, fx [btc 90] 0 0 0]
   = ([fx [Starknet (DString ''soon'')] 0 1 0, fx [btc 90] 0 1 0],
      Failed (InvalidBlockTimestamp (DString ''soon'')))"
  by (simp add: round_eval no_parse_def)

lemma malformed_round1_random:
  "merge_round (\<lambda>t. Inr (getTransactionTimestamp_random no_parse t)) fx_peek fx_next
     [fx [Starknet (DString ''soon'')] 0 0 0, fx [btc 90] 0 0 0]
   = ([fx [] 0 1 1, fx [btc 90] 0 1 0], Appended 0 (Starknet (DString ''soon'')))"
  by (simp add: round_eval no_parse_def)

lemma malformed_round2_random:
  "merge_round (\<lambda>t. Inr (getTransactionTimestamp_random no_parse t)) fx_peek fx_next
     [fx [] 0 1 1, fx [btc 90] 0 1 0]
   = ([fx [] 0 2 1, fx [] 0 2 1], Appended 1 (btc 90))"
  by (simp add: round_eval no_parse_def)

lemma takeN_ordered_output:
  assumes c: "stream_contract items peek next"
    and d: "\<forall>s\<in>set streams. descending (getTransactionTimestamp parse) (items s)"
    and run: "takeN parse peek next streams limit = Some (Inr (res, orig, ss'))
            \<or> takeN_random parse peek next streams limit = Some (Inr (res, orig, ss'))"
  shows "ordered_output (getTransactionTimestamp parse) res orig"
  using run
proof
  assume "takeN parse peek next streams limit = Some (Inr (res, orig, ss'))"
  then have loop: "takeN_loop (getTransactionTimestamp parse) peek next limit [] [] 0 streams
      = Some (Inr (res, orig, ss'))"
    by (simp add: takeN_def split: if_splits)
  from takeN_loop_merge_inv[OF c loop merge_inv_init[OF d]]
  show ?thesis by (rule merge_inv_ordered)
next
  let ?ts = "\<lambda>t. Inr (getTransactionTimestamp_random parse t)"
  assume "takeN_random parse peek next streams limit = Some (Inr (res, orig, ss'))"
  then have loop: "takeN_loop_random ?ts peek next limit [] [] streams = Some (Inr (res, orig, ss'))"
    by (simp add: takeN_random_def)
  have d': "\<forall>s\<in>set streams. descending ?ts (items s)" using d by (simp add: descending_random)
  from takeN_loop_random_merge_inv[OF c loop merge_inv_init[OF d']]
  have "ordered_output ?ts res orig" by (rule merge_inv_ordered)
  then show ?thesis by (simp add: ordered_output_random)
qed

lemma pending_round1:
  "merge_round (getTransactionTimestamp no_parse) fx_peek fx_next
     [fx [Stacks None None, btc 100] 0 0 0, fx [btc 200] 0 0 0]
   = ([fx [btc 100] 0 1 1, fx [btc 200] 0 1 0], Appended 0 (Stacks None None))"
  by (simp add: round_eval)

lemma pending_round2:
  "merge_round (getTransactionTimestamp no_parse) fx_peek fx_next
     [fx [btc 100] 0 1 1, fx [btc 200] 0 1 0]
   = ([fx [btc 100] 0 2 1, fx [] 0 2 1], Appended 1 (btc 200))"
  by (simp add: round_eval)

lemma pending_round3:
  "merge_round (getTransactionTimestamp no_parse) fx_peek fx_next
     [fx [btc 100] 0 2 1, fx [] 0 2 1]
   = ([fx [] 0 3 2, fx [] 0 3 1], Appended 0 (btc 100))"
  by (simp add: round_eval)

lemma run_pending:
  "takeN no_parse fx_peek fx_next [fx [Stacks None None, btc 100] 0 0 0, fx [btc 200] 0 0 0] (Fin 3)
     = Some (Inr ([Stacks None None, btc 200, btc 100], [0, 1, 0], [fx [] 0 3 2, fx [] 0 3 1]))"
  by (simp add: limit_eval takeN_loop_Appended[OF _ pending_round1]
      takeN_loop_Appended[OF _ pending_round2] takeN_loop_Appended[OF _ pending_round3]
      takeN_loop_done del: One_nat_def)

lemma floor_ms: "\<lfloor>real_of_int ms / 1000\<rfloor> = ms div 1000"
  using floor_divide_of_int_eq[of ms 1000, where ?'a = real] by simp

lemma merge_round_all_empty:
  assumes "\<forall>s\<in>set ss. fst (peek s) = None"
  shows "merge_round ts peek next ss = (map (\<lambda>s. snd (peek s)) ss, Exhausted)"
proof -
  have "available peek ss = []"
  proof (rule ccontr)
    assume "available peek ss \<noteq> []"
    then obtain p where "p \<in> set (available peek ss)" by (cases "available peek ss") auto
    then obtain i t where "i < length ss" "fst (peek (ss ! i)) = Some t"
      unfolding available_mem by blast
    with assms show False by (metis nth_mem option.distinct(1))
  qed
  then show ?thesis by (simp add: merge_round_unfold)
qed

lemma reduce_pick_total:
  assumes "\<forall>c\<in>set (p # ps). transaction c \<noteq> None" and "\<forall>t. \<exists>k. ts t = Inr k"
  shows "\<exists>w. reduce (pick ts) p ps = Inr w"
  using assms(1)
proof (induction ps arbitrary: p)
  case Nil
  then show ?case by simp
next
  case (Cons x xs)
  from Cons.prems obtain tp tx where tp: "transaction p = Some tp" and tx: "transaction x = Some tx"
    by auto
  from assms(2) obtain kp kx where "ts tp = Inr kp" "ts tx = Inr kx" by blast
  then have "\<exists>q. pick ts p x = Inr q" using tp tx by (auto simp: pick_def)
  then obtain q where q: "pick ts p x = Inr q" by blast
  from pick_mem[OF q] Cons.prems have "\<forall>c\<in>set (q # xs). transaction c \<noteq> None" by auto
  from Cons.IH[OF this] q show ?case by simp
qed

lemma merge_round_never_fails:
  assumes "\<forall>t. \<exists>k. ts t = Inr k"
  shows "merge_round ts peek next ss \<noteq> (ss', Failed e)"
proof (cases "available peek ss")
  case Nil
  then show ?thesis by (simp add: merge_round_unfold)
next
  case (Cons p ps)
  have "\<forall>c\<in>set (p # ps). transaction c \<noteq> None"
    unfolding Cons[symmetric] by (auto simp: available_mem)
  from reduce_pick_total[OF this assms] obtain w where "reduce (pick ts) p ps = Inr w" by blast
  then show ?thesis using Cons by (simp add: merge_round_unfold split: option.splits)
qed

lemma takeN_loop_random_never_raises:
  fixes peek :: "'s peek_fn"
  assumes ts: "\<forall>t. \<exists>k. ts t = Inr k"
  shows "takeN_loop_random ts peek next limit rs os ss \<noteq> Some (Inl e)"
proof
  assume run: "takeN_loop_random ts peek next limit rs os ss = Some (Inl e)"
  have "ts0 = ts \<longrightarrow> (\<forall>e. y \<noteq> Inl e)"
    if "takeN_loop_random ts0 peek0 next0 limit0 rs os ss = Some y"
    for ts0 and peek0 :: "'s peek_fn" and next0 limit0 rs os ss y
  proof (rule takeN_loop_random.raw_induct[where P = "\<lambda>ts0 peek0 next0 limit0 rs os ss y.
      ts0 = ts \<longrightarrow> (\<forall>e. y \<noteq> Inl e)", OF _ that], goal_cases)
    case (1 loop ts0 peek0 next0 limit0 rs os ss y)
    show ?case
    proof (intro impI allI)
      fix e assume eq: "ts0 = ts"
      show "y \<noteq> Inl e"
      proof (cases "js_lt (Fin (real (length rs))) limit0")
        case False
        then show ?thesis using 1(2) by auto
      next
        case True
        obtain s1 out where r: "merge_round ts peek0 next0 ss = (s1, out)"
          by (cases "merge_round ts peek0 next0 ss")
        show ?thesis
        proof (cases out)
          case Exhausted
          then show ?thesis using 1(2) eq True r by auto
        next
          case (Failed e')
          then show ?thesis using merge_round_never_fails[OF ts] r by blast
        next
          case (Appended w v)
          then have "loop ts peek0 next0 limit0 (rs @ [v]) (os @ [w]) s1 = Some y"
            using 1(2) eq True r by simp
          from 1(1)[OF this] eq show ?thesis by (cases e) simp
        next
          case (NoValue w)
          then have "loop ts peek0 next0 limit0 rs os s1 = Some y"
            using 1(2) eq True r by simp
          from 1(1)[OF this] eq show ?thesis by (cases e) simp
        qed
      qed
    qed
  qed
  from this[OF run] show False by simp
qed

lemma takeN_random_never_raises: "takeN_random parse peek next streams limit \<noteq> Some (Inl e)"
  unfolding takeN_random_def by (rule takeN_loop_random_never_raises) simp

lemma run_over:
  "takeN no_parse fx_peek fx_next [fx [btc 100] 0 0 0] (Fin 10001)
     = Some (Inl (LimitExceeded (Fin 10001), [fx [btc 100] 0 0 0]))"
  by (simp add: limit_eval)

lemma single_round:
  "merge_round (getTransactionTimestamp no_parse) fx_peek fx_next [fx [Starknet (DString ''soon'')] 0 0 0]
   = ([fx [] 0 1 1], Appended 0 (Starknet (DString ''soon'')))"
  by (simp add: round_eval)

lemma takeN_single_candidate_unexamined:
  "takeN no_parse fx_peek fx_next [fx [Starknet (DString ''soon'')] 0 0 0] (Fin 1)
     = Some (Inr ([Starknet (DString ''soon'')], [0], [fx [] 0 1 1]))"
  by (simp add: limit_eval takeN_loop_Appended[OF _ single_round] takeN_loop_done del: One_nat_def)

lemma stuck_contract: "stream_contract buffer fx_peek stuck_next"
  unfolding stream_contract_def
  by (auto simp: fx_peek_def stuck_next_def split: list.splits)

lemma stuck_round:
  "merge_round ts fx_peek stuck_next [fx [btc 100] 0 p n]
     = ([fx [btc 100] 0 (p + 1) (n + 1)], NoValue 0)"
  by (simp add: merge_round_def peek_all_def fx_peek_def stuck_next_def fx_def enumerate_eq_zip)

lemma takeN_loop_random_stuck:
  "takeN_loop_random ts fx_peek stuck_next (Fin 1) [] [] [fx [btc 100] 0 p n] = None"
proof (rule ccontr)
  assume "takeN_loop_random ts fx_peek stuck_next (Fin 1) [] [] [fx [btc 100] 0 p n] \<noteq> None"
  then obtain y where run: "takeN_loop_random ts fx_peek stuck_next (Fin 1) [] [] [fx [btc 100] 0 p n] = Some y"
    by blast
  have "peek0 = fx_peek \<and> next0 = stuck_next \<and> limit0 = Fin 1 \<and> rs = [] \<and> os = []
          \<and> (\<exists>p n. ss = [fx [btc 100] 0 p n]) \<longrightarrow> False"
    if "takeN_loop_random ts0 peek0 next0 limit0 rs os ss = Some y"
    for ts0 peek0 next0 limit0 rs os ss y
  proof (rule takeN_loop_random.raw_induct[where P = "\<lambda>ts0 peek0 next0 limit0 rs os ss y.
      peek0 = fx_peek \<and> next0 = stuck_next \<and> limit0 = Fin 1 \<and> rs = [] \<and> os = []
          \<and> (\<exists>p n. ss = [fx [btc 100] 0 p n]) \<longrightarrow> False", OF _ that], goal_cases)
    case (1 loop ts0 peek0 next0 limit0 rs os ss y)
    show ?case
    proof
      assume a: "peek0 = fx_peek \<and> next0 = stuck_next \<and> limit0 = Fin 1 \<and> rs = [] \<and> os = []
          \<and> (\<exists>p n. ss = [fx [btc 100] 0 p n])"
      then obtain p n where ss: "ss = [fx [btc 100] 0 p n]" by blast
      from 1(2) a ss have "loop ts0 fx_peek stuck_next (Fin 1) [] [] [fx [btc 100] 0 (p + 1) (n + 1)] = Some y"
        by (simp add: stuck_round)
      from 1(1)[OF this] show False by blast
    qed
  qed
  from this[OF run] show False by blast
qed

lemma takeN_random_runs_forever:
  "takeN_random no_parse fx_peek stuck_next [fx [btc 100] 0 0 0] (Fin 1) = None"
  by (simp add: takeN_random_def takeN_loop_random_stuck)

lemma stuck_stall:
  "takeN no_parse fx_peek stuck_next [fx [btc 100] 0 0 0] (Fin 1)
     = Some (Inl (StallError, [fx [btc 100] 0 3 3]))"
proof -
  have "takeN no_parse fx_peek stuck_next [fx [btc 100] 0 0 0] (Fin 1)
     = Some (Inl (StallError, [fx [btc 100] 0 (0 + 1 + 1 + 1) (0 + 1 + 1 + 1)]))"
    by (rule takeN_stall[OF _ _ _ stuck_round stuck_round stuck_round])
       (simp_all add: js_le_def js_gt_def js_eq_def MAX_ALLOWED_LIMIT_def)
  then show ?thesis by (simp add: numeral_3_eq_3)
qed

lemma fraction_round1:
  "merge_round (getTransactionTimestamp no_parse) fx_peek fx_next
     [fx [btc 100, btc 90, btc 80, btc 70] 0 0 0]
   = ([fx [btc 90, btc 80, btc 70] 0 1 1], Appended 0 (btc 100))"
  by (simp add: round_eval)

lemma fraction_round2:
  "merge_round (getTransactionTimestamp no_parse) fx_peek fx_next
     [fx [btc 90, btc 80, btc 70] 0 1 1]
   = ([fx [btc 80, btc 70] 0 2 2], Appended 0 (btc 90))"
  by (simp add: round_eval)

lemma fraction_round3:
  "merge_round (getTransactionTimestamp no_parse) fx_peek fx_next
     [fx [btc 80, btc 70] 0 2 2]
   = ([fx [btc 70] 0 3 3], Appended 0 (btc 80))"
  by (simp add: round_eval)

lemma takeN_fractional_limit:
  "takeN no_parse fx_peek fx_next [fx [btc 100, btc 90, btc 80, btc 70] 0 0 0] (Fin (5 / 2))
     = Some (Inr ([btc 100, btc 90, btc 80], [0, 0, 0], [fx [btc 70] 0 3 3]))"
  by (simp add: limit_eval takeN_loop_Appended[OF _ fraction_round1]
      takeN_loop_Appended[OF _ fraction_round2] takeN_loop_Appended[OF _ fraction_round3]
      takeN_loop_done del: One_nat_def)

section \<open>The claims\<close>

text \<open>
  C1. Let the streams keep the contract, and let every stream hold its items in
  non-increasing merge-key order. Then whatever \<^verbatim>\<open>takeN\<close> returns, in either
  implementation, is sorted by merge key descending, and of two returned items with
  equal keys the one from the lower-indexed stream comes first; each returned item
  is attributed to the stream that produced it (\<open>produced_from\<close>). In every round
  that selects a winner among candidates with keys, under any normaliser, the winner
  is an available candidate, no available candidate has a greater key, and every
  available candidate with an equal key has an index that is not smaller.
\<close>

theorem takeN_sorted_stable:
  assumes c: "stream_contract items peek next"
    and d: "\<forall>s\<in>set streams. descending (getTransactionTimestamp parse) (items s)"
  shows "(takeN parse peek next streams limit = Some (Inr (res, orig, ss')) \<longrightarrow>
            ordered_output (getTransactionTimestamp parse) res orig
            \<and> produced_from items streams res orig ss')
       \<and> (takeN_random parse peek next streams limit = Some (Inr (res, orig, ss')) \<longrightarrow>
            ordered_output (getTransactionTimestamp parse) res orig
            \<and> produced_from items streams res orig ss')
       \<and> (merge_round ts peek next ss = (ssn, out)
            \<and> (out = Appended w v \<or> out = NoValue w)
            \<and> (\<forall>i<length ss. \<forall>t. fst (peek (ss ! i)) = Some t \<longrightarrow> keyed ts t) \<longrightarrow>
            w < length ss
            \<and> (\<exists>tw. fst (peek (ss ! w)) = Some tw
                 \<and> (\<forall>j<length ss. \<forall>t. fst (peek (ss ! j)) = Some t \<longrightarrow>
                       precedes ts tw w t j)))"
proof -
  have p1: "takeN parse peek next streams limit = Some (Inr (res, orig, ss')) \<longrightarrow>
            ordered_output (getTransactionTimestamp parse) res orig
            \<and> produced_from items streams res orig ss'"
  proof
    assume run: "takeN parse peek next streams limit = Some (Inr (res, orig, ss'))"
    then have loop: "takeN_loop (getTransactionTimestamp parse) peek next limit [] [] 0 streams
        = Some (Inr (res, orig, ss'))"
      by (simp add: takeN_def split: if_splits)
    from takeN_loop_merge_inv[OF c loop merge_inv_init[OF d]]
    have "ordered_output (getTransactionTimestamp parse) res orig" by (rule merge_inv_ordered)
    moreover from takeN_loop_produced[OF c loop produced_from_init]
    have "produced_from items streams res orig ss'" .
    ultimately show "ordered_output (getTransactionTimestamp parse) res orig
            \<and> produced_from items streams res orig ss'" by (rule conjI)
  qed
  have p2: "takeN_random parse peek next streams limit = Some (Inr (res, orig, ss')) \<longrightarrow>
            ordered_output (getTransactionTimestamp parse) res orig
            \<and> produced_from items streams res orig ss'"
  proof
    let ?ts = "\<lambda>t. Inr (getTransactionTimestamp_random parse t)"
    assume run: "takeN_random parse peek next streams limit = Some (Inr (res, orig, ss'))"
    then have loop: "takeN_loop_random ?ts peek next limit [] [] streams = Some (Inr (res, orig, ss'))"
      by (simp add: takeN_random_def)
    have d': "\<forall>s\<in>set streams. descending ?ts (items s)" using d by (simp add: descending_random)
    from takeN_loop_random_merge_inv[OF c loop merge_inv_init[OF d']]
    have "ordered_output ?ts res orig" by (rule merge_inv_ordered)
    then have "ordered_output (getTransactionTimestamp parse) res orig"
      by (simp add: ordered_output_random)
    moreover from takeN_loop_random_produced[OF c loop produced_from_init]
    have "produced_from items streams res orig ss'" .
    ultimately show "ordered_output (getTransactionTimestamp parse) res orig
            \<and> produced_from items streams res orig ss'" by (rule conjI)
  qed
  have p3: "merge_round ts peek next ss = (ssn, out)
            \<and> (out = Appended w v \<or> out = NoValue w)
            \<and> (\<forall>i<length ss. \<forall>t. fst (peek (ss ! i)) = Some t \<longrightarrow> keyed ts t) \<longrightarrow>
            w < length ss
            \<and> (\<exists>tw. fst (peek (ss ! w)) = Some tw
                 \<and> (\<forall>j<length ss. \<forall>t. fst (peek (ss ! j)) = Some t \<longrightarrow>
                       precedes ts tw w t j))"
  proof
    assume r: "merge_round ts peek next ss = (ssn, out)
            \<and> (out = Appended w v \<or> out = NoValue w)
            \<and> (\<forall>i<length ss. \<forall>t. fst (peek (ss ! i)) = Some t \<longrightarrow> keyed ts t)"
    from merge_round_winner[OF conjunct1[OF r] conjunct1[OF conjunct2[OF r]]
        conjunct2[OF conjunct2[OF r]]]
    show "w < length ss
            \<and> (\<exists>tw. fst (peek (ss ! w)) = Some tw
                 \<and> (\<forall>j<length ss. \<forall>t. fst (peek (ss ! j)) = Some t \<longrightarrow>
                       precedes ts tw w t j))" .
  qed
  show ?thesis by (rule conjI[OF p1 conjI[OF p2 p3]])
qed

theorem takeN_sorted_stable_witness:
  "stream_contract buffer fx_peek fx_next
   \<and> descending (getTransactionTimestamp no_parse) (buffer (fx [btc 100, btc 50] 0 0 0))
   \<and> descending (getTransactionTimestamp no_parse) (buffer (fx [btc 100] 0 0 0))
   \<and> takeN no_parse fx_peek fx_next [fx [btc 100, btc 50] 0 0 0, fx [btc 100] 0 0 0] (Fin 3)
       = Some (Inr ([btc 100, btc 100, btc 50], [0, 1, 0], [fx [] 0 3 2, fx [] 0 3 1]))
   \<and> takeN_random no_parse fx_peek fx_next [fx [btc 100, btc 50] 0 0 0, fx [btc 100] 0 0 0] (Fin 3)
       = Some (Inr ([btc 100, btc 100, btc 50], [0, 1, 0], [fx [] 0 3 2, fx [] 0 3 1]))
   \<and> ordered_output (getTransactionTimestamp no_parse) [btc 100, btc 100, btc 50] [0, 1, 0]
   \<and> produced_from buffer [fx [btc 100, btc 50] 0 0 0, fx [btc 100] 0 0 0]
        [btc 100, btc 100, btc 50] [0, 1, 0] [fx [] 0 3 2, fx [] 0 3 1]
   \<and> merge_round (getTransactionTimestamp no_parse) fx_peek fx_next
        [fx [btc 100, btc 50] 0 0 0, fx [btc 100] 0 0 0]
       = ([fx [btc 50] 0 1 1, fx [btc 100] 0 1 0], Appended 0 (btc 100))
   \<and> fst (fx_peek ([fx [btc 100, btc 50] 0 0 0, fx [btc 100] 0 0 0] ! 0)) = Some (btc 100)
   \<and> fst (fx_peek ([fx [btc 100, btc 50] 0 0 0, fx [btc 100] 0 0 0] ! 1)) = Some (btc 100)
   \<and> precedes (getTransactionTimestamp no_parse) (btc 100) 0 (btc 100) 1"
proof -
  let ?ts = "getTransactionTimestamp no_parse"
  let ?ss = "[fx [btc 100, btc 50] 0 0 0, fx [btc 100] 0 0 0]"
  have d1: "descending ?ts (buffer (fx [btc 100, btc 50] 0 0 0))"
    by (simp add: fx_def descending_btc2)
  have d2: "descending ?ts (buffer (fx [btc 100] 0 0 0))"
    by (simp add: fx_def descending_btc1)
  have d: "\<forall>s\<in>set ?ss. descending ?ts (buffer s)"
    using d1 d2 by simp
  note inst = takeN_sorted_stable[OF fx_contract d, where limit = "Fin 3"
      and res = "[btc 100, btc 100, btc 50]" and orig = "[0, 1, 0]"
      and ss' = "[fx [] 0 3 2, fx [] 0 3 1]" and ts = ?ts and ss = ?ss
      and ssn = "[fx [btc 50] 0 1 1, fx [btc 100] 0 1 0]" and out = "Appended 0 (btc 100)"
      and w = 0 and v = "btc 100"]
  have concl: "ordered_output ?ts [btc 100, btc 100, btc 50] [0, 1, 0]
   \<and> produced_from buffer ?ss [btc 100, btc 100, btc 50] [0, 1, 0] [fx [] 0 3 2, fx [] 0 3 1]"
    by (rule mp[OF conjunct1[OF inst] run_tie])
  have h0: "fst (fx_peek (?ss ! 0)) = Some (btc 100)" by (simp add: fx_peek_def fx_def)
  have h1: "fst (fx_peek (?ss ! 1)) = Some (btc 100)" by (simp add: fx_peek_def fx_def)
  have keyed: "\<forall>i<length ?ss. \<forall>t. fst (fx_peek (?ss ! i)) = Some t \<longrightarrow> keyed ?ts t"
  proof (intro allI impI)
    fix i t assume "i < length ?ss" and t: "fst (fx_peek (?ss ! i)) = Some t"
    then have "i = 0 \<or> i = 1" by auto
    with t h0 h1 have "t = btc 100" by auto
    then show "keyed ?ts t" by (simp add: keyed_def btc_def)
  qed
  have hyp: "merge_round ?ts fx_peek fx_next ?ss
        = ([fx [btc 50] 0 1 1, fx [btc 100] 0 1 0], Appended 0 (btc 100))
      \<and> (Appended 0 (btc 100) = Appended 0 (btc 100) \<or> Appended 0 (btc 100) = NoValue 0)
      \<and> (\<forall>i<length ?ss. \<forall>t. fst (fx_peek (?ss ! i)) = Some t \<longrightarrow> keyed ?ts t)"
    using tie_round1 keyed by simp
  from mp[OF conjunct2[OF conjunct2[OF inst]] hyp]
  obtain tw where tw: "fst (fx_peek (?ss ! 0)) = Some tw"
    and best: "\<forall>j<length ?ss. \<forall>t. fst (fx_peek (?ss ! j)) = Some t \<longrightarrow> precedes ?ts tw 0 t j"
    by blast
  from tw h0 have "tw = btc 100" by simp
  with best h1 have win: "precedes ?ts (btc 100) 0 (btc 100) 1" by simp
  show ?thesis
    by (rule conjI[OF fx_contract conjI[OF d1 conjI[OF d2 conjI[OF run_tie conjI[OF run_tie_random
      conjI[OF conjunct1[OF concl] conjI[OF conjunct2[OF concl] conjI[OF tie_round1
      conjI[OF h0 conjI[OF h1 win]]]]]]]]]])
qed

text \<open>
  C2. Three consecutive rounds that call \<^verbatim>\<open>next\<close> and append nothing end the call with
  the stall error and no result, whatever was collected before, and an append sets the
  counter back to zero. The hardened merger does so: \<open>takeN_loop_stall\<close>, \<open>takeN_stall\<close>
  and \<open>takeN_loop_append_resets\<close>. The merger of \<^verbatim>\<open>random.ts\<close> has no counter. On two
  streams, the first of which answers \<^verbatim>\<open>next\<close> three times with "not done" and no
  item while the second has data, it runs through the three empty rounds and returns
  both items, where the hardened merger raises the stall error; and on a stream whose
  \<^verbatim>\<open>next\<close> never yields it does not return at all.
\<close>

theorem takeN_random_ignores_stall:
  "takeN_random no_parse fx_peek fx_next [fx [btc 100] 3 0 0, fx [btc 90] 0 0 0] (Fin 2)
     = Some (Inr ([btc 100, btc 90], [0, 1], [fx [] 0 5 4, fx [] 0 5 1]))
   \<and> takeN no_parse fx_peek fx_next [fx [btc 100] 3 0 0, fx [btc 90] 0 0 0] (Fin 2)
     = Some (Inl (StallError, [fx [btc 100] 0 3 3, fx [btc 90] 0 3 0]))
   \<and> takeN_random no_parse fx_peek stuck_next [fx [btc 100] 0 0 0] (Fin 1) = None
   \<and> takeN no_parse fx_peek stuck_next [fx [btc 100] 0 0 0] (Fin 1)
     = Some (Inl (StallError, [fx [btc 100] 0 3 3]))"
proof -
  have a: "takeN_random no_parse fx_peek fx_next [fx [btc 100] 3 0 0, fx [btc 90] 0 0 0] (Fin 2)
     = Some (Inr ([btc 100, btc 90], [0, 1], [fx [] 0 5 4, fx [] 0 5 1]))"
    by (simp add: limit_eval takeN_loop_random_NoValue[OF _ stall_round1_random]
        takeN_loop_random_NoValue[OF _ stall_round2_random]
        takeN_loop_random_NoValue[OF _ stall_round3_random]
        takeN_loop_random_Appended[OF _ stall_round4_random]
        takeN_loop_random_Appended[OF _ stall_round5_random]
        takeN_loop_random_done del: One_nat_def)
  have b: "takeN no_parse fx_peek fx_next [fx [btc 100] 3 0 0, fx [btc 90] 0 0 0] (Fin 2)
     = Some (Inl (StallError, [fx [btc 100] 0 3 3, fx [btc 90] 0 3 0]))"
    by (rule takeN_stall[OF _ _ _ stall_round1 stall_round2 stall_round3])
       (simp_all add: js_le_def js_gt_def js_eq_def MAX_ALLOWED_LIMIT_def)
  show ?thesis by (rule conjI[OF a conjI[OF b conjI[OF takeN_random_runs_forever stuck_stall]]])
qed

text \<open>
  C3. Construction from an empty or absent list of streams fails, and \<^verbatim>\<open>takeN\<close> with
  a limit that is not positive, not finite or above 10000 fails before any stream is
  touched. The hardened merger does so: \<open>StreamMerger_rejects_no_streams\<close> and
  \<open>takeN_rejects_invalid_limit\<close>, where the streams' states come back unchanged for
  every \<open>peek\<close> and \<open>next\<close>. The merger of \<^verbatim>\<open>random.ts\<close> checks nothing: it is
  constructed from the empty list, returns the empty result for the limits 0 and
  \<^verbatim>\<open>NaN\<close>, and for the limit 10001 calls \<^verbatim>\<open>peek\<close> and \<^verbatim>\<open>next\<close> and returns an item.
\<close>

theorem takeN_random_validates_nothing:
  "StreamMerger_random (Some ([]::fx_stream list)) = Inr (Some [])
   \<and> StreamMerger (Some ([]::fx_stream list)) = Inl ConfigError
   \<and> takeN_random no_parse fx_peek fx_next [] (Fin 1) = Some (Inr ([], [], []))
   \<and> takeN_random no_parse fx_peek fx_next [fx [btc 100] 0 0 0] (Fin 0)
       = Some (Inr ([], [], [fx [btc 100] 0 0 0]))
   \<and> takeN no_parse fx_peek fx_next [fx [btc 100] 0 0 0] (Fin 0)
       = Some (Inl (InvalidLimit (Fin 0), [fx [btc 100] 0 0 0]))
   \<and> takeN_random no_parse fx_peek fx_next [fx [btc 100] 0 0 0] NaN
       = Some (Inr ([], [], [fx [btc 100] 0 0 0]))
   \<and> takeN no_parse fx_peek fx_next [fx [btc 100] 0 0 0] NaN
       = Some (Inl (InvalidLimit NaN, [fx [btc 100] 0 0 0]))
   \<and> takeN_random no_parse fx_peek fx_next [fx [btc 100] 0 0 0] (Fin 10001)
       = Some (Inr ([btc 100], [0], [fx [] 0 2 1]))
   \<and> takeN no_parse fx_peek fx_next [fx [btc 100] 0 0 0] (Fin 10001)
       = Some (Inl (LimitExceeded (Fin 10001), [fx [btc 100] 0 0 0]))"
proof -
  have a1: "StreamMerger_random (Some ([]::fx_stream list)) = Inr (Some [])"
    by (simp add: StreamMerger_random_def)
  have a2: "StreamMerger (Some ([]::fx_stream list)) = Inl ConfigError"
    by (simp add: StreamMerger_def)
  have a3: "takeN_random no_parse fx_peek fx_next [] (Fin 1) = Some (Inr ([], [], []))"
    by (simp add: limit_eval takeN_loop_random_Exhausted[OF _ empty_round_random])
  have a4: "takeN_random no_parse fx_peek fx_next [fx [btc 100] 0 0 0] (Fin 0)
       = Some (Inr ([], [], [fx [btc 100] 0 0 0]))"
    by (simp add: limit_eval takeN_loop_random_done)
  have a5: "takeN no_parse fx_peek fx_next [fx [btc 100] 0 0 0] (Fin 0)
       = Some (Inl (InvalidLimit (Fin 0), [fx [btc 100] 0 0 0]))"
    by (simp add: limit_eval)
  have a6: "takeN_random no_parse fx_peek fx_next [fx [btc 100] 0 0 0] NaN
       = Some (Inr ([], [], [fx [btc 100] 0 0 0]))"
    by (simp add: limit_eval takeN_loop_random_done)
  have a7: "takeN no_parse fx_peek fx_next [fx [btc 100] 0 0 0] NaN
       = Some (Inl (InvalidLimit NaN, [fx [btc 100] 0 0 0]))"
    by (simp add: limit_eval)
  have a9: "takeN no_parse fx_peek fx_next [fx [btc 100] 0 0 0] (Fin 10001)
       = Some (Inl (LimitExceeded (Fin 10001), [fx [btc 100] 0 0 0]))"
    by (simp add: limit_eval)
  show ?thesis
    by (rule conjI[OF a1 conjI[OF a2 conjI[OF a3 conjI[OF a4 conjI[OF a5 conjI[OF a6 conjI[OF a7
      conjI[OF run_over_random a9]]]]]]]])
qed

text \<open>
  C4. A starknet \<^verbatim>\<open>blockTimestamp\<close> or a spark \<^verbatim>\<open>createdAt\<close> that does not parse is
  a fatal error that carries the raw input. The hardened normaliser does so
  (\<open>getTransactionTimestamp_malformed\<close>, \<open>getTransactionTimestamp_error_cases\<close>), and
  a round of the hardened merger with two or more candidates, one of them malformed,
  fails with such an error (\<open>merge_round_malformed\<close>); a round with a single candidate
  never calls the normaliser (\<open>takeN_single_candidate_unexamined\<close>). The normaliser of
  \<^verbatim>\<open>random.ts\<close> returns \<^verbatim>\<open>NaN\<close> for the same inputs and raises nothing, and its merger
  returns the malformed item ahead of a well-formed one.
\<close>

theorem getTransactionTimestamp_random_accepts_malformed:
  "Date_getTime no_parse (DString ''soon'') = None
   \<and> getTransactionTimestamp_random no_parse (Starknet (DString ''soon'')) = NaN
   \<and> getTransactionTimestamp_random no_parse (Spark (Some (DString ''soon''))) = NaN
   \<and> getTransactionTimestamp no_parse (Starknet (DString ''soon''))
       = Inl (InvalidBlockTimestamp (DString ''soon''))
   \<and> getTransactionTimestamp no_parse (Spark (Some (DString ''soon'')))
       = Inl (InvalidCreatedAt (DString ''soon''))
   \<and> takeN_random no_parse fx_peek fx_next
        [fx [Starknet (DString ''soon'')] 0 0 0, fx [btc 90] 0 0 0] (Fin 2)
       = Some (Inr ([Starknet (DString ''soon''), btc 90], [0, 1], [fx [] 0 2 1, fx [] 0 2 1]))
   \<and> takeN no_parse fx_peek fx_next
        [fx [Starknet (DString ''soon'')] 0 0 0, fx [btc 90] 0 0 0] (Fin 2)
       = Some (Inl (InvalidBlockTimestamp (DString ''soon''),
                    [fx [Starknet (DString ''soon'')] 0 1 0, fx [btc 90] 0 1 0]))"
proof -
  have a1: "Date_getTime no_parse (DString ''soon'') = None" by (simp add: no_parse_def)
  have a2: "getTransactionTimestamp_random no_parse (Starknet (DString ''soon'')) = NaN"
    by (simp add: no_parse_def)
  have a3: "getTransactionTimestamp_random no_parse (Spark (Some (DString ''soon''))) = NaN"
    by (simp add: no_parse_def)
  have a4: "getTransactionTimestamp no_parse (Starknet (DString ''soon''))
       = Inl (InvalidBlockTimestamp (DString ''soon''))"
    by (simp add: no_parse_def)
  have a5: "getTransactionTimestamp no_parse (Spark (Some (DString ''soon'')))
       = Inl (InvalidCreatedAt (DString ''soon''))"
    by (simp add: no_parse_def)
  have a6: "takeN_random no_parse fx_peek fx_next
        [fx [Starknet (DString ''soon'')] 0 0 0, fx [btc 90] 0 0 0] (Fin 2)
       = Some (Inr ([Starknet (DString ''soon''), btc 90], [0, 1], [fx [] 0 2 1, fx [] 0 2 1]))"
    by (simp add: limit_eval takeN_loop_random_Appended[OF _ malformed_round1_random]
        takeN_loop_random_Appended[OF _ malformed_round2_random] takeN_loop_random_done
        del: One_nat_def)
  have a7: "takeN no_parse fx_peek fx_next
        [fx [Starknet (DString ''soon'')] 0 0 0, fx [btc 90] 0 0 0] (Fin 2)
       = Some (Inl (InvalidBlockTimestamp (DString ''soon''),
                    [fx [Starknet (DString ''soon'')] 0 1 0, fx [btc 90] 0 1 0]))"
    by (simp add: limit_eval takeN_loop_Failed[OF _ malformed_round])
  show ?thesis
    by (rule conjI[OF a1 conjI[OF a2 conjI[OF a3 conjI[OF a4 conjI[OF a5 conjI[OF a6 a7]]]]]])
qed

text \<open>
  C5. For streams that keep the contract and a limit that is a natural number \<open>n\<close>,
  a list returned by \<^verbatim>\<open>takeN\<close>, in either implementation, has at most \<open>n\<close> items and
  at most as many items as the streams hold together; the hardened \<^verbatim>\<open>takeN\<close> always
  returns or raises. (The limit check does not ask for an integer: a fractional limit
  such as 2.5 passes it, and the loop then stops at the next integer,
  \<open>takeN_fractional_limit\<close>.)
\<close>

theorem takeN_length_bounds:
  assumes c: "stream_contract items peek next"
  shows "(\<exists>r. takeN parse peek next streams (Fin (real n)) = Some r)
       \<and> (takeN parse peek next streams (Fin (real n)) = Some (Inr (res, orig, ss')) \<longrightarrow>
            length res \<le> n \<and> length res \<le> total_items items streams)
       \<and> (takeN_random parse peek next streams (Fin (real n)) = Some (Inr (res, orig, ss')) \<longrightarrow>
            length res \<le> n \<and> length res \<le> total_items items streams)"
proof -
  have init: "count_inv items (total_items items streams) n [] [] streams"
    by (simp add: count_inv_def)
  have p1: "takeN parse peek next streams (Fin (real n)) = Some (Inr (res, orig, ss')) \<longrightarrow>
            length res \<le> n \<and> length res \<le> total_items items streams"
  proof
    assume "takeN parse peek next streams (Fin (real n)) = Some (Inr (res, orig, ss'))"
    then have loop: "takeN_loop (getTransactionTimestamp parse) peek next (Fin (real n)) [] [] 0 streams
        = Some (Inr (res, orig, ss'))"
      by (simp add: takeN_def split: if_splits)
    from takeN_loop_count[OF c loop init]
    show "length res \<le> n \<and> length res \<le> total_items items streams"
      by (simp add: count_inv_def)
  qed
  have p2: "takeN_random parse peek next streams (Fin (real n)) = Some (Inr (res, orig, ss')) \<longrightarrow>
            length res \<le> n \<and> length res \<le> total_items items streams"
  proof
    assume "takeN_random parse peek next streams (Fin (real n)) = Some (Inr (res, orig, ss'))"
    then have loop: "takeN_loop_random (\<lambda>t. Inr (getTransactionTimestamp_random parse t)) peek next
        (Fin (real n)) [] [] streams = Some (Inr (res, orig, ss'))"
      by (simp add: takeN_random_def)
    from takeN_loop_random_count[OF c loop init]
    show "length res \<le> n \<and> length res \<le> total_items items streams"
      by (simp add: count_inv_def)
  qed
  show ?thesis by (rule conjI[OF takeN_returns conjI[OF p1 p2]])
qed

theorem takeN_length_bounds_witness:
  "stream_contract buffer fx_peek fx_next
   \<and> takeN no_parse fx_peek fx_next [fx [btc 100, btc 50] 0 0 0, fx [btc 100] 0 0 0] (Fin (real 3))
       = Some (Inr ([btc 100, btc 100, btc 50], [0, 1, 0], [fx [] 0 3 2, fx [] 0 3 1]))
   \<and> length [btc 100, btc 100, btc 50] \<le> 3
   \<and> length [btc 100, btc 100, btc 50]
       \<le> total_items buffer [fx [btc 100, btc 50] 0 0 0, fx [btc 100] 0 0 0]"
proof -
  have run: "takeN no_parse fx_peek fx_next [fx [btc 100, btc 50] 0 0 0, fx [btc 100] 0 0 0] (Fin (real 3))
       = Some (Inr ([btc 100, btc 100, btc 50], [0, 1, 0], [fx [] 0 3 2, fx [] 0 3 1]))"
    using run_tie by simp
  note inst = takeN_length_bounds[OF fx_contract, where n = 3 and parse = no_parse
      and streams = "[fx [btc 100, btc 50] 0 0 0, fx [btc 100] 0 0 0]"
      and res = "[btc 100, btc 100, btc 50]" and orig = "[0, 1, 0]"
      and ss' = "[fx [] 0 3 2, fx [] 0 3 1]"]
  have concl: "length [btc 100, btc 100, btc 50] \<le> 3
   \<and> length [btc 100, btc 100, btc 50]
       \<le> total_items buffer [fx [btc 100, btc 50] 0 0 0, fx [btc 100] 0 0 0]"
    by (rule mp[OF conjunct1[OF conjunct2[OF inst]] run])
  show ?thesis by (rule conjI[OF fx_contract conjI[OF run concl]])
qed

text \<open>
  C6. For a stacks transaction the normaliser (the same in both implementations)
  returns the block time when it is a number greater than 0; otherwise the burn block
  time when it is a number, whatever its sign; otherwise positive infinity, which is
  greater than every finite timestamp. Hence, when the streams keep the contract and
  are sorted, a stacks item that lacks both fields stands, in whatever \<^verbatim>\<open>takeN\<close>
  returns, before every item whose key is a finite timestamp.
\<close>

theorem stacks_timestamp:
  "(js_gt bt (Fin 0) \<longrightarrow> getTransactionTimestamp parse (Stacks (Some bt) burn) = Inr bt)
   \<and> (\<not> js_gt bt (Fin 0) \<longrightarrow>
        getTransactionTimestamp parse (Stacks (Some bt) (Some b)) = Inr b
        \<and> getTransactionTimestamp parse (Stacks (Some bt) None) = Inr PosInf)
   \<and> getTransactionTimestamp parse (Stacks None (Some b)) = Inr b
   \<and> getTransactionTimestamp parse (Stacks None None) = Inr PosInf
   \<and> getTransactionTimestamp parse (Stacks blockTime burn)
       = Inr (getTransactionTimestamp_random parse (Stacks blockTime burn))
   \<and> js_gt PosInf (Fin x)
   \<and> (stream_contract items peek next
        \<and> (\<forall>s\<in>set streams. descending (getTransactionTimestamp parse) (items s))
        \<and> (takeN parse peek next streams limit = Some (Inr (res, orig, ss'))
            \<or> takeN_random parse peek next streams limit = Some (Inr (res, orig, ss')))
        \<and> i < length res \<and> j < length res \<and> res ! j = Stacks None None
        \<and> key_of (getTransactionTimestamp parse) (res ! i) = Fin y
        \<longrightarrow> j < i)"
proof -
  have p7: "stream_contract items peek next
        \<and> (\<forall>s\<in>set streams. descending (getTransactionTimestamp parse) (items s))
        \<and> (takeN parse peek next streams limit = Some (Inr (res, orig, ss'))
            \<or> takeN_random parse peek next streams limit = Some (Inr (res, orig, ss')))
        \<and> i < length res \<and> j < length res \<and> res ! j = Stacks None None
        \<and> key_of (getTransactionTimestamp parse) (res ! i) = Fin y
        \<longrightarrow> j < i"
  proof
    assume a: "stream_contract items peek next
        \<and> (\<forall>s\<in>set streams. descending (getTransactionTimestamp parse) (items s))
        \<and> (takeN parse peek next streams limit = Some (Inr (res, orig, ss'))
            \<or> takeN_random parse peek next streams limit = Some (Inr (res, orig, ss')))
        \<and> i < length res \<and> j < length res \<and> res ! j = Stacks None None
        \<and> key_of (getTransactionTimestamp parse) (res ! i) = Fin y"
    then have "ordered_output (getTransactionTimestamp parse) res orig"
      using takeN_ordered_output by blast
    then have sorted: "sorted_wrt (\<lambda>a b. js_ge (key_of (getTransactionTimestamp parse) a)
        (key_of (getTransactionTimestamp parse) b)) res"
      by (simp add: ordered_output_def)
    from a have jlen: "j < length res" and rj: "res ! j = Stacks None None"
      and ki: "key_of (getTransactionTimestamp parse) (res ! i) = Fin y"
      by blast+
    have kj: "key_of (getTransactionTimestamp parse) (res ! j) = PosInf"
      using rj by (simp add: key_of_def)
    show "j < i"
    proof (rule ccontr)
      assume "\<not> j < i"
      then consider "i = j" | "i < j" by linarith
      then show False
      proof cases
        case 1
        then show False using ki kj by simp
      next
        case 2
        from sorted have "js_ge (key_of (getTransactionTimestamp parse) (res ! i))
          (key_of (getTransactionTimestamp parse) (res ! j))"
          using 2 jlen unfolding sorted_wrt_iff_nth_less by blast
        then show False unfolding ki kj by (simp add: js_ge_def js_gt_def js_eq_def)
      qed
    qed
  qed
  have p5: "getTransactionTimestamp parse (Stacks blockTime burn)
       = Inr (getTransactionTimestamp_random parse (Stacks blockTime burn))"
    by (simp split: option.splits)
  have p6: "js_gt PosInf (Fin x)" by (simp add: js_gt_def)
  have p1: "js_gt bt (Fin 0) \<longrightarrow> getTransactionTimestamp parse (Stacks (Some bt) burn) = Inr bt"
    by simp
  have p2: "\<not> js_gt bt (Fin 0) \<longrightarrow>
        getTransactionTimestamp parse (Stacks (Some bt) (Some b)) = Inr b
        \<and> getTransactionTimestamp parse (Stacks (Some bt) None) = Inr PosInf"
    by simp
  have p3: "getTransactionTimestamp parse (Stacks None (Some b)) = Inr b" by simp
  have p4: "getTransactionTimestamp parse (Stacks None None) = Inr PosInf" by simp
  show ?thesis
    by (rule conjI[OF p1 conjI[OF p2 conjI[OF p3 conjI[OF p4 conjI[OF p5 conjI[OF p6 p7]]]]]])
qed

theorem stacks_timestamp_witness:
  "js_gt (Fin 1700000000) (Fin 0)
   \<and> getTransactionTimestamp no_parse (Stacks (Some (Fin 1700000000)) (Some (Fin 5))) = Inr (Fin 1700000000)
   \<and> \<not> js_gt (Fin 0) (Fin 0)
   \<and> getTransactionTimestamp no_parse (Stacks (Some (Fin 0)) (Some (Fin (- 7)))) = Inr (Fin (- 7))
   \<and> getTransactionTimestamp no_parse (Stacks (Some (Fin 0)) None) = Inr PosInf
   \<and> stream_contract buffer fx_peek fx_next
   \<and> descending (getTransactionTimestamp no_parse) (buffer (fx [Stacks None None, btc 100] 0 0 0))
   \<and> descending (getTransactionTimestamp no_parse) (buffer (fx [btc 200] 0 0 0))
   \<and> takeN no_parse fx_peek fx_next [fx [Stacks None None, btc 100] 0 0 0, fx [btc 200] 0 0 0] (Fin 3)
       = Some (Inr ([Stacks None None, btc 200, btc 100], [0, 1, 0], [fx [] 0 3 2, fx [] 0 3 1]))
   \<and> [Stacks None None, btc 200, btc 100] ! 0 = Stacks None None
   \<and> key_of (getTransactionTimestamp no_parse) ([Stacks None None, btc 200, btc 100] ! 1) = Fin 200
   \<and> (0::nat) < 1"
proof -
  note inst = stacks_timestamp[where parse = no_parse and bt = "Fin 1700000000" and burn = "Some (Fin 5)"]
  note inst0 = stacks_timestamp[where parse = no_parse and bt = "Fin 0" and b = "Fin (- 7)"]
  have g1: "js_gt (Fin 1700000000) (Fin 0)" by (simp add: js_gt_def)
  have g2: "\<not> js_gt (Fin 0) (Fin 0)" by (simp add: js_gt_def)
  have c1: "getTransactionTimestamp no_parse (Stacks (Some (Fin 1700000000)) (Some (Fin 5)))
      = Inr (Fin 1700000000)"
    by (rule mp[OF conjunct1[OF inst] g1])
  have c2: "getTransactionTimestamp no_parse (Stacks (Some (Fin 0)) (Some (Fin (- 7)))) = Inr (Fin (- 7))
      \<and> getTransactionTimestamp no_parse (Stacks (Some (Fin 0)) None) = Inr PosInf"
    by (rule mp[OF conjunct1[OF conjunct2[OF inst0]] g2])
  have d1: "descending (getTransactionTimestamp no_parse) (buffer (fx [Stacks None None, btc 100] 0 0 0))"
    by (simp add: fx_def descending_def keyed_def key_of_def btc_def js_ge_def js_gt_def js_eq_def)
  have d2: "descending (getTransactionTimestamp no_parse) (buffer (fx [btc 200] 0 0 0))"
    by (simp add: fx_def descending_btc1)
  have r0: "[Stacks None None, btc 200, btc 100] ! 0 = Stacks None None" by simp
  have k1: "key_of (getTransactionTimestamp no_parse) ([Stacks None None, btc 200, btc 100] ! 1) = Fin 200"
    by (simp add: key_of_def btc_def)
  have "stream_contract buffer fx_peek fx_next
        \<and> (\<forall>s\<in>set [fx [Stacks None None, btc 100] 0 0 0, fx [btc 200] 0 0 0].
              descending (getTransactionTimestamp no_parse) (buffer s))
        \<and> (takeN no_parse fx_peek fx_next [fx [Stacks None None, btc 100] 0 0 0, fx [btc 200] 0 0 0] (Fin 3)
              = Some (Inr ([Stacks None None, btc 200, btc 100], [0, 1, 0], [fx [] 0 3 2, fx [] 0 3 1]))
            \<or> takeN_random no_parse fx_peek fx_next
                [fx [Stacks None None, btc 100] 0 0 0, fx [btc 200] 0 0 0] (Fin 3)
              = Some (Inr ([Stacks None None, btc 200, btc 100], [0, 1, 0], [fx [] 0 3 2, fx [] 0 3 1])))
        \<and> 1 < length [Stacks None None, btc 200, btc 100]
        \<and> 0 < length [Stacks None None, btc 200, btc 100]
        \<and> [Stacks None None, btc 200, btc 100] ! 0 = Stacks None None
        \<and> key_of (getTransactionTimestamp no_parse) ([Stacks None None, btc 200, btc 100] ! 1) = Fin 200"
    using fx_contract d1 d2 run_pending r0 k1 by simp
  then have c7: "(0::nat) < 1"
    by (rule mp[OF conjunct2[OF conjunct2[OF conjunct2[OF conjunct2[OF conjunct2[OF conjunct2[OF
      stacks_timestamp[where parse = no_parse and items = buffer and peek = fx_peek
        and streams = "[fx [Stacks None None, btc 100] 0 0 0, fx [btc 200] 0 0 0]" and limit = "Fin 3"
        and res = "[Stacks None None, btc 200, btc 100]" and orig = "[0, 1, 0]"
        and ss' = "[fx [] 0 3 2, fx [] 0 3 1]" and i = 1 and j = 0 and y = 200]]]]]]], rotated])
  show ?thesis
    by (rule conjI[OF g1 conjI[OF c1 conjI[OF g2 conjI[OF conjunct1[OF c2] conjI[OF conjunct2[OF c2]
      conjI[OF fx_contract conjI[OF d1 conjI[OF d2 conjI[OF run_pending conjI[OF r0 conjI[OF k1 c7]]]]]]]]]]])
qed

text \<open>
  C7. For a bitcoin transaction the normaliser returns the block time when present and
  0 otherwise. For a starknet transaction whose \<^verbatim>\<open>blockTimestamp\<close> parses to \<open>ms\<close>
  milliseconds, and for a spark transaction whose \<^verbatim>\<open>createdAt\<close> does, it returns the
  floor of \<open>ms / 1000\<close>; for a spark transaction without \<^verbatim>\<open>createdAt\<close> it returns 0.
  Where the hardened normaliser returns a key, the normaliser of \<^verbatim>\<open>random.ts\<close> returns
  the same key.
\<close>

theorem timestamp_bitcoin_starknet_spark:
  "getTransactionTimestamp parse (Bitcoin (Some t)) = Inr t
   \<and> getTransactionTimestamp parse (Bitcoin None) = Inr (Fin 0)
   \<and> (Date_getTime parse raw = Some ms \<longrightarrow>
        getTransactionTimestamp parse (Starknet raw) = Inr (Fin (of_int \<lfloor>real_of_int ms / 1000\<rfloor>))
        \<and> getTransactionTimestamp parse (Spark (Some raw)) = Inr (Fin (of_int \<lfloor>real_of_int ms / 1000\<rfloor>)))
   \<and> getTransactionTimestamp parse (Spark None) = Inr (Fin 0)
   \<and> (\<forall>k. getTransactionTimestamp parse tx = Inr k \<longrightarrow> getTransactionTimestamp_random parse tx = k)"
proof -
  have p1: "getTransactionTimestamp parse (Bitcoin (Some t)) = Inr t" by simp
  have p2: "getTransactionTimestamp parse (Bitcoin None) = Inr (Fin 0)" by simp
  have p3: "Date_getTime parse raw = Some ms \<longrightarrow>
        getTransactionTimestamp parse (Starknet raw) = Inr (Fin (of_int \<lfloor>real_of_int ms / 1000\<rfloor>))
        \<and> getTransactionTimestamp parse (Spark (Some raw)) = Inr (Fin (of_int \<lfloor>real_of_int ms / 1000\<rfloor>))"
    by (simp add: floor_ms)
  have p4: "getTransactionTimestamp parse (Spark None) = Inr (Fin 0)" by simp
  have p5: "\<forall>k. getTransactionTimestamp parse tx = Inr k \<longrightarrow> getTransactionTimestamp_random parse tx = k"
    using timestamp_agree by blast
  show ?thesis by (rule conjI[OF p1 conjI[OF p2 conjI[OF p3 conjI[OF p4 p5]]]])
qed

theorem timestamp_bitcoin_starknet_spark_witness:
  "Date_getTime sample_parse (DString ''1969-12-31T23:59:58.500Z'') = Some (- 1500)
   \<and> getTransactionTimestamp sample_parse (Starknet (DString ''1969-12-31T23:59:58.500Z'')) = Inr (Fin (- 2))
   \<and> getTransactionTimestamp sample_parse (Spark (Some (DString ''1969-12-31T23:59:58.500Z''))) = Inr (Fin (- 2))
   \<and> getTransactionTimestamp sample_parse (Starknet (DString ''1970-01-01T00:00:01.500Z'')) = Inr (Fin 1)
   \<and> getTransactionTimestamp_random sample_parse (Starknet (DString ''1970-01-01T00:00:01.500Z'')) = Fin 1"
proof -
  have h: "Date_getTime sample_parse (DString ''1969-12-31T23:59:58.500Z'') = Some (- 1500)"
    by (simp add: sample_parse_def)
  note inst = timestamp_bitcoin_starknet_spark[where parse = sample_parse
      and raw = "DString ''1969-12-31T23:59:58.500Z''" and ms = "- 1500"]
  have c: "getTransactionTimestamp sample_parse (Starknet (DString ''1969-12-31T23:59:58.500Z''))
        = Inr (Fin (of_int \<lfloor>real_of_int (- 1500) / 1000\<rfloor>))
      \<and> getTransactionTimestamp sample_parse (Spark (Some (DString ''1969-12-31T23:59:58.500Z'')))
        = Inr (Fin (of_int \<lfloor>real_of_int (- 1500) / 1000\<rfloor>))"
    by (rule mp[OF conjunct1[OF conjunct2[OF conjunct2[OF inst]]] h])
  have f: "\<lfloor>real_of_int (- 1500) / 1000\<rfloor> = - 2" by (simp add: floor_ms)
  have e1: "getTransactionTimestamp sample_parse (Starknet (DString ''1970-01-01T00:00:01.500Z'')) = Inr (Fin 1)"
    by (simp add: sample_parse_def)
  have e2: "getTransactionTimestamp_random sample_parse (Starknet (DString ''1970-01-01T00:00:01.500Z'')) = Fin 1"
    by (simp add: sample_parse_def)
  from h c f e1 e2 show ?thesis by simp
qed

text \<open>
  C8. In a round in which no stream's \<^verbatim>\<open>peek\<close> reports an item, both loops stop and
  return what was collected so far, without an error; with a valid limit and no item
  reported in the first round, \<^verbatim>\<open>takeN\<close> returns the empty sequence.
\<close>

theorem takeN_stops_when_nothing_available:
  "(js_lt (Fin (real (length rs))) limit \<and> (\<forall>s\<in>set ss. fst (peek s) = None) \<longrightarrow>
      takeN_loop ts peek next limit rs os c ss = Some (Inr (rs, os, map (\<lambda>s. snd (peek s)) ss))
      \<and> takeN_loop_random ts peek next limit rs os ss
          = Some (Inr (rs, os, map (\<lambda>s. snd (peek s)) ss)))
   \<and> (\<not> js_le limit (Fin 0) \<and> Number_isFinite limit \<and> \<not> js_gt limit MAX_ALLOWED_LIMIT
        \<and> (\<forall>s\<in>set streams. fst (peek s) = None) \<longrightarrow>
      takeN parse peek next streams limit = Some (Inr ([], [], map (\<lambda>s. snd (peek s)) streams))
      \<and> takeN_random parse peek next streams limit
          = Some (Inr ([], [], map (\<lambda>s. snd (peek s)) streams)))"
proof -
  have p1: "js_lt (Fin (real (length rs))) limit \<and> (\<forall>s\<in>set ss. fst (peek s) = None) \<longrightarrow>
      takeN_loop ts peek next limit rs os c ss = Some (Inr (rs, os, map (\<lambda>s. snd (peek s)) ss))
      \<and> takeN_loop_random ts peek next limit rs os ss
          = Some (Inr (rs, os, map (\<lambda>s. snd (peek s)) ss))"
  proof
    assume a: "js_lt (Fin (real (length rs))) limit \<and> (\<forall>s\<in>set ss. fst (peek s) = None)"
    then have r: "merge_round ts peek next ss = (map (\<lambda>s. snd (peek s)) ss, Exhausted)"
      by (simp add: merge_round_all_empty)
    from a have g: "js_lt (Fin (real (length rs))) limit" by simp
    show "takeN_loop ts peek next limit rs os c ss = Some (Inr (rs, os, map (\<lambda>s. snd (peek s)) ss))
      \<and> takeN_loop_random ts peek next limit rs os ss
          = Some (Inr (rs, os, map (\<lambda>s. snd (peek s)) ss))"
      using takeN_loop_Exhausted[OF g r] takeN_loop_random_Exhausted[OF g r] by simp
  qed
  have p2: "\<not> js_le limit (Fin 0) \<and> Number_isFinite limit \<and> \<not> js_gt limit MAX_ALLOWED_LIMIT
        \<and> (\<forall>s\<in>set streams. fst (peek s) = None) \<longrightarrow>
      takeN parse peek next streams limit = Some (Inr ([], [], map (\<lambda>s. snd (peek s)) streams))
      \<and> takeN_random parse peek next streams limit
          = Some (Inr ([], [], map (\<lambda>s. snd (peek s)) streams))"
  proof
    assume a: "\<not> js_le limit (Fin 0) \<and> Number_isFinite limit \<and> \<not> js_gt limit MAX_ALLOWED_LIMIT
        \<and> (\<forall>s\<in>set streams. fst (peek s) = None)"
    then obtain x where x: "limit = Fin x" by (cases limit) auto
    with a have g: "js_lt (Fin (real (length ([]::tx list)))) limit"
      by (auto simp: js_le_def js_eq_def)
    from a have e: "\<forall>s\<in>set streams. fst (peek s) = None" by simp
    have r: "\<And>ts. merge_round ts peek next streams = (map (\<lambda>s. snd (peek s)) streams, Exhausted)"
      using e by (rule merge_round_all_empty)
    show "takeN parse peek next streams limit = Some (Inr ([], [], map (\<lambda>s. snd (peek s)) streams))
      \<and> takeN_random parse peek next streams limit
          = Some (Inr ([], [], map (\<lambda>s. snd (peek s)) streams))"
      using a takeN_loop_Exhausted[OF g r] takeN_loop_random_Exhausted[OF g r]
      by (simp add: takeN_def takeN_random_def)
  qed
  show ?thesis by (rule conjI[OF p1 p2])
qed

theorem takeN_stops_when_nothing_available_witness:
  "\<not> js_le (Fin 5) (Fin 0) \<and> Number_isFinite (Fin 5) \<and> \<not> js_gt (Fin 5) MAX_ALLOWED_LIMIT
   \<and> fst (fx_peek (fx [] 0 0 0)) = None \<and> fst (fx_peek (fx [] 2 0 0)) = None
   \<and> takeN no_parse fx_peek fx_next [fx [] 0 0 0, fx [] 2 0 0] (Fin 5)
       = Some (Inr ([], [], [fx [] 0 1 0, fx [] 2 1 0]))
   \<and> takeN_random no_parse fx_peek fx_next [fx [] 0 0 0, fx [] 2 0 0] (Fin 5)
       = Some (Inr ([], [], [fx [] 0 1 0, fx [] 2 1 0]))
   \<and> js_lt (Fin (real (length [btc 100]))) (Fin 5)
   \<and> takeN_loop (getTransactionTimestamp no_parse) fx_peek fx_next (Fin 5) [btc 100] [0] 2
         [fx [] 0 0 0, fx [] 2 0 0]
       = Some (Inr ([btc 100], [0], [fx [] 0 1 0, fx [] 2 1 0]))"
proof -
  have h1: "\<not> js_le (Fin 5) (Fin 0)" by (simp add: js_le_def js_eq_def)
  have h2: "Number_isFinite (Fin 5)" by simp
  have h3: "\<not> js_gt (Fin 5) MAX_ALLOWED_LIMIT" by (simp add: js_gt_def MAX_ALLOWED_LIMIT_def)
  have e1: "fst (fx_peek (fx [] 0 0 0)) = None" by (simp add: fx_peek_def fx_def)
  have e2: "fst (fx_peek (fx [] 2 0 0)) = None" by (simp add: fx_peek_def fx_def)
  have e: "\<forall>s\<in>set [fx [] 0 0 0, fx [] 2 0 0]. fst (fx_peek s) = None" using e1 e2 by simp
  have m: "map (\<lambda>s. snd (fx_peek s)) [fx [] 0 0 0, fx [] 2 0 0] = [fx [] 0 1 0, fx [] 2 1 0]"
    by (simp add: fx_peek_def fx_def)
  have g: "js_lt (Fin (real (length [btc 100]))) (Fin 5)" by simp
  note inst = takeN_stops_when_nothing_available[where peek = fx_peek and limit = "Fin 5"
      and streams = "[fx [] 0 0 0, fx [] 2 0 0]" and ss = "[fx [] 0 0 0, fx [] 2 0 0]"
      and rs = "[btc 100]"]
  from mp[OF conjunct2[OF inst]] h1 h2 h3 e m
  have c2: "takeN no_parse fx_peek fx_next [fx [] 0 0 0, fx [] 2 0 0] (Fin 5)
       = Some (Inr ([], [], [fx [] 0 1 0, fx [] 2 1 0]))
     \<and> takeN_random no_parse fx_peek fx_next [fx [] 0 0 0, fx [] 2 0 0] (Fin 5)
       = Some (Inr ([], [], [fx [] 0 1 0, fx [] 2 1 0]))"
    by simp
  from mp[OF conjunct1[OF inst]] g e m
  have c1: "takeN_loop (getTransactionTimestamp no_parse) fx_peek fx_next (Fin 5) [btc 100] [0] 2
         [fx [] 0 0 0, fx [] 2 0 0]
       = Some (Inr ([btc 100], [0], [fx [] 0 1 0, fx [] 2 1 0]))"
    by simp
  from h1 h2 h3 e1 e2 c2 g c1 show ?thesis by simp
qed



lemma takeN_random_returns_what_takeN_returns:
  "takeN parse peek next streams limit = Some (Inr r) \<longrightarrow>
     takeN_random parse peek next streams limit = Some (Inr r)"
  using takeN_simulated by blast

lemma run_tie_simulated:
  "takeN no_parse fx_peek fx_next [fx [btc 100, btc 50] 0 0 0, fx [btc 100] 0 0 0] (Fin 3)
     = Some (Inr ([btc 100, btc 100, btc 50], [0, 1, 0], [fx [] 0 3 2, fx [] 0 3 1]))
   \<and> takeN_random no_parse fx_peek fx_next [fx [btc 100, btc 50] 0 0 0, fx [btc 100] 0 0 0] (Fin 3)
     = Some (Inr ([btc 100, btc 100, btc 50], [0, 1, 0], [fx [] 0 3 2, fx [] 0 3 1]))"
  by (rule conjI[OF run_tie mp[OF takeN_random_returns_what_takeN_returns run_tie]])

text \<open>
  C10. The two implementations do not raise errors on the same inputs. The \<^verbatim>\<open>takeN\<close> of
  \<^verbatim>\<open>random.ts\<close> (lines 32-66) has none of the three checks of its sibling in
  \<^verbatim>\<open>part_000\<close> (lines 55-107), and returns a sequence where the sibling raises: with
  the limit 10001 the hardened \<^verbatim>\<open>takeN\<close> raises before it touches the stream and the
  other one reads the stream and returns its item; on a stream that answers \<^verbatim>\<open>next\<close>
  three times with no item the hardened one raises the stall error and the other one
  returns both items; on a starknet item whose \<^verbatim>\<open>blockTimestamp\<close> does not parse the
  hardened one raises and the other one returns the item. The first half of the claim
  holds: where the hardened \<^verbatim>\<open>takeN\<close> returns a sequence, the \<^verbatim>\<open>takeN\<close> of \<^verbatim>\<open>random.ts\<close>
  returns the same sequence and leaves the streams in the same states
  (\<open>takeN_random_returns_what_takeN_returns\<close>, \<open>run_tie_simulated\<close>).
\<close>

theorem takeN_random_errors_differ:
  "takeN no_parse fx_peek fx_next [fx [btc 100] 0 0 0] (Fin 10001)
     = Some (Inl (LimitExceeded (Fin 10001), [fx [btc 100] 0 0 0]))
   \<and> takeN_random no_parse fx_peek fx_next [fx [btc 100] 0 0 0] (Fin 10001)
     = Some (Inr ([btc 100], [0], [fx [] 0 2 1]))
   \<and> takeN no_parse fx_peek fx_next [fx [btc 100] 3 0 0, fx [btc 90] 0 0 0] (Fin 2)
     = Some (Inl (StallError, [fx [btc 100] 0 3 3, fx [btc 90] 0 3 0]))
   \<and> takeN_random no_parse fx_peek fx_next [fx [btc 100] 3 0 0, fx [btc 90] 0 0 0] (Fin 2)
     = Some (Inr ([btc 100, btc 90], [0, 1], [fx [] 0 5 4, fx [] 0 5 1]))
   \<and> takeN no_parse fx_peek fx_next
        [fx [Starknet (DString ''soon'')] 0 0 0, fx [btc 90] 0 0 0] (Fin 2)
     = Some (Inl (InvalidBlockTimestamp (DString ''soon''),
                  [fx [Starknet (DString ''soon'')] 0 1 0, fx [btc 90] 0 1 0]))
   \<and> takeN_random no_parse fx_peek fx_next
        [fx [Starknet (DString ''soon'')] 0 0 0, fx [btc 90] 0 0 0] (Fin 2)
     = Some (Inr ([Starknet (DString ''soon''), btc 90], [0, 1], [fx [] 0 2 1, fx [] 0 2 1]))"
proof -
  have s1: "takeN no_parse fx_peek fx_next [fx [btc 100] 3 0 0, fx [btc 90] 0 0 0] (Fin 2)
     = Some (Inl (StallError, [fx [btc 100] 0 3 3, fx [btc 90] 0 3 0]))"
    by (rule takeN_stall[OF _ _ _ stall_round1 stall_round2 stall_round3])
       (simp_all add: js_le_def js_gt_def js_eq_def MAX_ALLOWED_LIMIT_def)
  have s2: "takeN_random no_parse fx_peek fx_next [fx [btc 100] 3 0 0, fx [btc 90] 0 0 0] (Fin 2)
     = Some (Inr ([btc 100, btc 90], [0, 1], [fx [] 0 5 4, fx [] 0 5 1]))"
    by (simp add: limit_eval takeN_loop_random_NoValue[OF _ stall_round1_random]
        takeN_loop_random_NoValue[OF _ stall_round2_random]
        takeN_loop_random_NoValue[OF _ stall_round3_random]
        takeN_loop_random_Appended[OF _ stall_round4_random]
        takeN_loop_random_Appended[OF _ stall_round5_random]
        takeN_loop_random_done del: One_nat_def)
  have m1: "takeN no_parse fx_peek fx_next
        [fx [Starknet (DString ''soon'')] 0 0 0, fx [btc 90] 0 0 0] (Fin 2)
     = Some (Inl (InvalidBlockTimestamp (DString ''soon''),
                  [fx [Starknet (DString ''soon'')] 0 1 0, fx [btc 90] 0 1 0]))"
    by (simp add: limit_eval takeN_loop_Failed[OF _ malformed_round])
  have m2: "takeN_random no_parse fx_peek fx_next
        [fx [Starknet (DString ''soon'')] 0 0 0, fx [btc 90] 0 0 0] (Fin 2)
     = Some (Inr ([Starknet (DString ''soon''), btc 90], [0, 1], [fx [] 0 2 1, fx [] 0 2 1]))"
    by (simp add: limit_eval takeN_loop_random_Appended[OF _ malformed_round1_random]
        takeN_loop_random_Appended[OF _ malformed_round2_random] takeN_loop_random_done
        del: One_nat_def)
  show ?thesis
    by (rule conjI[OF run_over conjI[OF run_over_random conjI[OF s1 conjI[OF s2 conjI[OF m1 m2]]]]])
qed

end
